theory Spec2Isabelle
  imports Main "HOL-Library.Char_ord" "HOL-Library.List_Lexorder" "HOL-Library.Sublist"
begin

section \<open>Keys, records and the lower-casing helper\<close>

text \<open>
  Student ids are C++ \<open>int\<close>; the engine only compares them, so they are modelled as
  \<open>int\<close>. Last names are \<open>std::string\<close>: a sequence of bytes ordered
  lexicographically, byte by byte as unsigned values, a proper prefix sorting first. That is
  the order of \<open>char list\<close> given by \<open>Char_ord\<close> and \<open>List_Lexorder\<close>.
  Heap positions (RIDs) are C++ \<open>int\<close> values obtained from \<open>heap.size()\<close>;
  they are modelled as \<open>nat\<close>, for heaps of fewer than \<open>2^31\<close> records.
\<close>

text \<open>
  Modelled from the spec: \<open>Record.h\<close> is not among the sources. A record has an
  \<open>id\<close>, a \<open>last\<close> name and a \<open>deleted\<close> flag; every other field is the
  extension part of the record scheme.
\<close>

record Record =
  rec_id :: int
  rec_last :: string
  deleted :: bool

text \<open>
  \<open>tolower((unsigned char)c)\<close> in the default C locale: the letters \<open>A..Z\<close> are
  moved to \<open>a..z\<close>, every other byte is left as it is.
\<close>

definition tolower :: "char \<Rightarrow> char" where
  "tolower c =
     (if CHR ''A'' \<le> c \<and> c \<le> CHR ''Z'' then char_of (of_char c + (32::nat)) else c)"

definition toLower :: "string \<Rightarrow> string" where
  "toLower s = map tolower s"

section \<open>The ordered index\<close>

text \<open>
  Modelled from the spec: \<open>BST.h\<close>, the class template \<open>BST<K, V>\<close>, is not among
  the sources. The index is an unbalanced binary search tree with one value per key, and a
  counter of key comparisons that \<open>find\<close> and \<open>rangeApply\<close> advance.
\<close>

datatype ('k, 'v) node = Null | Node "('k, 'v) node" 'k 'v "('k, 'v) node"

record ('k, 'v) BST =
  root :: "('k, 'v) node"
  comparisons :: nat

text \<open>
  Modelled from the spec: \<open>find\<close> returns a pointer to the value stored under the key,
  or null; each comparison against a node's key counts, one per node the search looks at.
\<close>

fun find_node :: "'k::linorder \<Rightarrow> ('k, 'v) node \<Rightarrow> 'v option" where
  "find_node k Null = None"
| "find_node k (Node l a v r) =
     (if k < a then find_node k l else if a < k then find_node k r else Some v)"

fun find_cmps :: "'k::linorder \<Rightarrow> ('k, 'v) node \<Rightarrow> nat" where
  "find_cmps k Null = 0"
| "find_cmps k (Node l a v r) =
     (if k < a then Suc (find_cmps k l) else if a < k then Suc (find_cmps k r) else 1)"

text \<open>
  Modelled from the spec: \<open>insert\<close> adds a node for a new key and replaces the value of
  a key that is present; nothing is rebalanced.
\<close>

fun insert_node :: "'k::linorder \<Rightarrow> 'v \<Rightarrow> ('k, 'v) node \<Rightarrow> ('k, 'v) node" where
  "insert_node k v Null = Node Null k v Null"
| "insert_node k v (Node l a b r) =
     (if k < a then Node (insert_node k v l) a b r
      else if a < k then Node l a b (insert_node k v r)
      else Node l a v r)"

text \<open>
  Modelled from the spec: the pointer that \<open>find\<close> returns is mutable. A write through
  it (\<open>push_back\<close> on, or erase-remove in, the bucket it points to) replaces the value
  in the node that the search for the key ends in.
\<close>

fun write_node :: "'k::linorder \<Rightarrow> ('v \<Rightarrow> 'v) \<Rightarrow> ('k, 'v) node \<Rightarrow> ('k, 'v) node" where
  "write_node k f Null = Null"
| "write_node k f (Node l a b r) =
     (if k < a then Node (write_node k f l) a b r
      else if a < k then Node l a b (write_node k f r)
      else Node l a (f b) r)"

text \<open>
  Modelled from the spec: \<open>erase\<close> is the standard deletion. A node with at most one
  child is spliced out; a node with two children takes over the entry of its in-order
  successor, the leftmost entry of its right subtree, which is then erased there. An absent
  key is no error. \<open>min_node l a b\<close> is the leftmost entry below a node that holds
  \<open>(a, b)\<close> and has the left child \<open>l\<close>.
\<close>

fun min_node :: "('k, 'v) node \<Rightarrow> 'k \<Rightarrow> 'v \<Rightarrow> 'k \<times> 'v" where
  "min_node Null a b = (a, b)"
| "min_node (Node l k v r) a b = min_node l k v"

fun erase_node :: "'k::linorder \<Rightarrow> ('k, 'v) node \<Rightarrow> ('k, 'v) node" where
  "erase_node k Null = Null"
| "erase_node k (Node l a b r) =
     (if k < a then Node (erase_node k l) a b r
      else if a < k then Node l a b (erase_node k r)
      else (case l of
              Null \<Rightarrow> r
            | Node ll lk lv lr \<Rightarrow>
                (case r of
                   Null \<Rightarrow> l
                 | Node rl rk rv rr \<Rightarrow>
                     Node l (fst (min_node rl rk rv)) (snd (min_node rl rk rv))
                       (erase_node (fst (min_node rl rk rv)) r))))"

text \<open>
  Modelled from the spec: what a pointer that \<open>find\<close> returned for a key refers to once
  \<open>erase\<close> of that key has run. The node of a key with two children stays where it is
  and now holds the value of the in-order successor; a node with at most one child has been
  spliced out, and the pointer dangles (\<open>None\<close>).
\<close>

fun stale_value :: "'k::linorder \<Rightarrow> ('k, 'v) node \<Rightarrow> 'v option" where
  "stale_value k Null = None"
| "stale_value k (Node l a b r) =
     (if k < a then stale_value k l
      else if a < k then stale_value k r
      else (case l of
              Null \<Rightarrow> None
            | Node ll lk lv lr \<Rightarrow>
                (case r of
                   Null \<Rightarrow> None
                 | Node rl rk rv rr \<Rightarrow> Some (snd (min_node rl rk rv)))))"

fun inorder :: "('k, 'v) node \<Rightarrow> ('k \<times> 'v) list" where
  "inorder Null = []"
| "inorder (Node l a b r) = inorder l @ (a, b) # inorder r"

text \<open>The keys of a tree, and the search-tree order that \<open>insert\<close> and \<open>erase\<close> maintain.\<close>

fun keys :: "('k, 'v) node \<Rightarrow> 'k set" where
  "keys Null = {}"
| "keys (Node l a b r) = insert a (keys l \<union> keys r)"

fun bst :: "('k::linorder, 'v) node \<Rightarrow> bool" where
  "bst Null = True"
| "bst (Node l a b r) =
     (bst l \<and> bst r \<and> (\<forall>x \<in> keys l. x < a) \<and> (\<forall>x \<in> keys r. a < x))"

text \<open>
  Modelled from the spec: \<open>rangeApply\<close> visits, in ascending order, the entries whose key
  lies in the inclusive range, and does not descend into a subtree that a comparison places
  outside the range.
\<close>

fun range_visits :: "'k::linorder \<Rightarrow> 'k \<Rightarrow> ('k, 'v) node \<Rightarrow> ('k \<times> 'v) list" where
  "range_visits lo hi Null = []"
| "range_visits lo hi (Node l a b r) =
     (if lo < a then range_visits lo hi l else []) @
     (if lo \<le> a \<and> a \<le> hi then [(a, b)] else []) @
     (if a < hi then range_visits lo hi r else [])"

text \<open>
  Modelled from the spec: every comparison of the traversal counts. At each node it reaches
  these are the two pruning tests and the two tests of the match.
\<close>

fun range_cmps :: "'k::linorder \<Rightarrow> 'k \<Rightarrow> ('k, 'v) node \<Rightarrow> nat" where
  "range_cmps lo hi Null = 0"
| "range_cmps lo hi (Node l a b r) =
     (if lo < a then range_cmps lo hi l else 0) + 4 +
     (if a < hi then range_cmps lo hi r else 0)"

text \<open>
  Modelled from the spec: the operations on the index as a whole, the tree together with its
  counter. \<open>resetMetrics\<close> zeroes the counter; \<open>insert\<close> and \<open>erase\<close> are not said
  to count.
\<close>

definition find_bst :: "'k::linorder \<Rightarrow> ('k, 'v) BST \<Rightarrow> 'v option \<times> ('k, 'v) BST" where
  "find_bst k b =
     (find_node k (root b), b\<lparr>comparisons := comparisons b + find_cmps k (root b)\<rparr>)"

definition insert_bst :: "'k::linorder \<Rightarrow> 'v \<Rightarrow> ('k, 'v) BST \<Rightarrow> ('k, 'v) BST" where
  "insert_bst k v b = b\<lparr>root := insert_node k v (root b)\<rparr>"

definition write_bst :: "'k::linorder \<Rightarrow> ('v \<Rightarrow> 'v) \<Rightarrow> ('k, 'v) BST \<Rightarrow> ('k, 'v) BST" where
  "write_bst k f b = b\<lparr>root := write_node k f (root b)\<rparr>"

definition erase_bst :: "'k::linorder \<Rightarrow> ('k, 'v) BST \<Rightarrow> ('k, 'v) BST" where
  "erase_bst k b = b\<lparr>root := erase_node k (root b)\<rparr>"

definition resetMetrics :: "('k, 'v) BST \<Rightarrow> ('k, 'v) BST" where
  "resetMetrics b = b\<lparr>comparisons := 0\<rparr>"

text \<open>
  Modelled from the spec: \<open>rangeApply\<close> hands the visitor the entries in the order of the
  traversal. The visitors of the engine only read them, so the traversal is the list of
  visited entries, and the visitor is run over that list.
\<close>

definition rangeApply :: "'k::linorder \<Rightarrow> 'k \<Rightarrow> ('k, 'v) BST \<Rightarrow> ('k \<times> 'v) list \<times> ('k, 'v) BST" where
  "rangeApply lo hi b =
     (range_visits lo hi (root b),
      b\<lparr>comparisons := comparisons b + range_cmps lo hi (root b)\<rparr>)"

definition empty_bst :: "('k, 'v) BST" where
  "empty_bst = \<lparr>root = Null, comparisons = 0\<rparr>"

section \<open>The engine\<close>

text \<open>
  \<open>heap[i]\<close> on a \<open>std::vector\<close> with \<open>i\<close> outside the vector is undefined
  behaviour; the model returns \<open>OutOfRange\<close> there.
\<close>

datatype error = OutOfRange

record 'p Engine =
  heap :: "'p Record_scheme list"
  idIndex :: "(int, nat) BST"
  lastIndex :: "(string, nat list) BST"

definition empty_engine :: "'p Engine" where
  "empty_engine = \<lparr>heap = [], idIndex = empty_bst, lastIndex = empty_bst\<rparr>"

text \<open>
  Lines 49-62 and 97-105 of \<open>Engine.h\<close>: look the lower-cased name up; without a
  bucket insert a new one holding the position, otherwise append the position to the bucket
  through the pointer.
\<close>

definition bucket_add :: "string \<Rightarrow> nat \<Rightarrow> (string, nat list) BST \<Rightarrow> (string, nat list) BST" where
  "bucket_add name rid idx =
     (case find_bst name idx of
        (None, idx1) \<Rightarrow> insert_bst name [rid] idx1
      | (Some lastNameVector, idx1) \<Rightarrow> write_bst name (\<lambda>v. v @ [rid]) idx1)"

text \<open>
  Lines 75-84 and 126-133: look the lower-cased name up and, when there is a bucket, erase
  every occurrence of the position from it (the erase-remove idiom).
\<close>

definition bucket_remove :: "string \<Rightarrow> nat \<Rightarrow> (string, nat list) BST \<Rightarrow> (string, nat list) BST" where
  "bucket_remove name rid idx =
     (case find_bst name idx of
        (None, idx1) \<Rightarrow> idx1
      | (Some lastNameVector, idx1) \<Rightarrow> write_bst name (removeAll rid) idx1)"

text \<open>
  \<open>insertRecord\<close> takes its argument by reference (\<open>const Record &recIn\<close>). The
  caller passes either a record of its own, which no write of the engine reaches, or a
  reference to a record in the engine's heap (\<open>heap\<close> is a public member, and
  \<open>findById\<close> and the two range queries return pointers into it). Every read of a field
  of \<open>recIn\<close> then sees the record as the heap holds it at that moment.
\<close>

datatype 'p recref = Passed "'p Record_scheme" | Held nat

fun valid_ref :: "'p recref \<Rightarrow> 'p Record_scheme list \<Rightarrow> bool" where
  "valid_ref (Passed r) h = True"
| "valid_ref (Held k) h = (k < length h)"

fun deref :: "'p recref \<Rightarrow> 'p Record_scheme list \<Rightarrow> 'p Record_scheme" where
  "deref (Passed r) h = r"
| "deref (Held k) h = h ! k"

text \<open>
  On the update path line 71 sets the deleted flag of \<open>heap[oldIndex]\<close> before line 87
  copies \<open>recIn\<close> into the heap: when \<open>recIn\<close> is a reference to \<open>heap[oldIndex]\<close>,
  the copy carries the flag. The reads of \<open>recIn.id\<close> and \<open>recIn.last\<close> that follow
  \<open>push_back\<close> (lines 44-45, 92-96) read the referenced element in the grown vector;
  neither field is ever written, so they return what the element held at the call. (Should
  \<open>push_back\<close> have moved the vector's storage, a reference into the heap is left
  dangling for these reads; the model takes the element's fields all the same.) A reference
  to no element of the heap is answered with \<open>OutOfRange\<close>.
\<close>

definition insertRecord :: "'p recref \<Rightarrow> 'p Engine \<Rightarrow> error + nat \<times> 'p Engine" where
  "insertRecord recIn e =
     (if \<not> valid_ref recIn (heap e) then Inl OutOfRange
      else
        (case find_bst (rec_id (deref recIn (heap e))) (idIndex e) of
           (None, idx1) \<Rightarrow>
             (let rid = length (heap e);
                  heap1 = heap e @ [deref recIn (heap e)]
              in Inr (rid,
                      e\<lparr>heap := heap1,
                        idIndex := insert_bst (rec_id (deref recIn heap1)) rid idx1,
                        lastIndex :=
                          bucket_add (toLower (rec_last (deref recIn heap1))) rid (lastIndex e)\<rparr>))
         | (Some oldIndex, idx1) \<Rightarrow>
             (let rid = length (heap e) in
              if oldIndex < length (heap e) then
                (let heap1 = (heap e)[oldIndex := (heap e ! oldIndex)\<lparr>deleted := True\<rparr>];
                     lastIndex1 =
                       bucket_remove (toLower (rec_last (heap1 ! oldIndex))) oldIndex (lastIndex e);
                     heap2 = heap1 @ [deref recIn heap1];
                     newRid = length heap2 - 1
                 in Inr (rid,
                         e\<lparr>heap := heap2,
                           idIndex := insert_bst (rec_id (deref recIn heap2)) newRid
                                        (erase_bst (rec_id (deref recIn heap2)) idx1),
                           lastIndex :=
                             bucket_add (toLower (rec_last (deref recIn heap2))) newRid lastIndex1\<rparr>))
              else Inl OutOfRange)))"

text \<open>
  The record that \<open>push_back\<close> copies into the heap: the argument as it is read after
  the old occupant of its id, if there is one, has been flagged.
\<close>

definition stored_copy :: "'p recref \<Rightarrow> 'p Engine \<Rightarrow> 'p Record_scheme" where
  "stored_copy recIn e =
     (case find_node (rec_id (deref recIn (heap e))) (root (idIndex e)) of
        None \<Rightarrow> deref recIn (heap e)
      | Some oldIndex \<Rightarrow>
          deref recIn ((heap e)[oldIndex := (heap e ! oldIndex)\<lparr>deleted := True\<rparr>]))"

text \<open>
  \<open>deleteById\<close> reads \<open>*heapIndex\<close> three times: at line 122, before
  \<open>idIndex.erase(id)\<close>, and at lines 124 and 131, after it. \<open>heapIndex\<close> points into
  the node that \<open>erase\<close> has just removed: a freed node makes the later reads undefined,
  and a node that took over its successor's entry makes them return the successor's
  position. What they return is therefore not determined by \<open>Engine.h\<close>; it is the
  argument \<open>reread\<close> of the model, one value for both reads, and a value that does not
  index the heap ends the call with \<open>OutOfRange\<close>. (The update path of
  \<open>insertRecord\<close> copies the position into \<open>oldIndex\<close> before it erases.)
\<close>

definition deleteById :: "nat \<Rightarrow> int \<Rightarrow> 'p Engine \<Rightarrow> error + bool \<times> 'p Engine" where
  "deleteById reread i e =
     (case find_bst i (idIndex e) of
        (None, idx1) \<Rightarrow> Inr (False, e\<lparr>idIndex := idx1\<rparr>)
      | (Some rid, idx1) \<Rightarrow>
          if rid < length (heap e) then
            (let heap1 = (heap e)[rid := (heap e ! rid)\<lparr>deleted := True\<rparr>];
                 idx2 = erase_bst i idx1
             in if reread < length heap1 then
                  Inr (True,
                       e\<lparr>heap := heap1,
                         idIndex := idx2,
                         lastIndex :=
                           bucket_remove (toLower (rec_last (heap1 ! reread))) reread (lastIndex e)\<rparr>)
                else Inl OutOfRange)
          else Inl OutOfRange)"

text \<open>
  A returned \<open>const Record *\<close> is \<open>&heap[rid]\<close>: the model returns the position
  \<open>rid\<close>, and the record pointed to is \<open>heap e ! rid\<close>.
\<close>

definition findById :: "int \<Rightarrow> 'p Engine \<Rightarrow> error + (nat option \<times> nat) \<times> 'p Engine" where
  "findById i e =
     (case find_bst i (resetMetrics (idIndex e)) of
        (heapIndex, idx1) \<Rightarrow>
          (case heapIndex of
             None \<Rightarrow> Inr ((None, comparisons idx1), e\<lparr>idIndex := idx1\<rparr>)
           | Some rid \<Rightarrow>
               if rid < length (heap e)
               then Inr ((Some rid, comparisons idx1), e\<lparr>idIndex := idx1\<rparr>)
               else Inl OutOfRange))"

text \<open>
  The two visitors test \<open>heap[rid].deleted\<close> for each position handed to them and
  append \<open>&heap[rid]\<close> to the result when the flag is clear.
\<close>

fun collect_live :: "'p Record_scheme list \<Rightarrow> nat list \<Rightarrow> nat list \<Rightarrow> error + nat list" where
  "collect_live h [] rangeResults = Inr rangeResults"
| "collect_live h (rid # rids) rangeResults =
     (if rid < length h
      then collect_live h rids (if deleted (h ! rid) then rangeResults else rangeResults @ [rid])
      else Inl OutOfRange)"

definition rangeById :: "int \<Rightarrow> int \<Rightarrow> 'p Engine \<Rightarrow> error + (nat list \<times> nat) \<times> 'p Engine" where
  "rangeById lo hi e =
     (case rangeApply lo hi (resetMetrics (idIndex e)) of
        (visits, idx1) \<Rightarrow>
          (case collect_live (heap e) (map snd visits) [] of
             Inl err \<Rightarrow> Inl err
           | Inr rangeResults \<Rightarrow> Inr ((rangeResults, comparisons idx1), e\<lparr>idIndex := idx1\<rparr>)))"

definition prefixByLast :: "string \<Rightarrow> 'p Engine \<Rightarrow> error + (nat list \<times> nat) \<times> 'p Engine" where
  "prefixByLast pfx e =
     (let lowerBound = toLower pfx;
          higherBound = lowerBound @ ''{''
      in case rangeApply lowerBound higherBound (resetMetrics (resetMetrics (lastIndex e))) of
           (visits, idx1) \<Rightarrow>
             (case collect_live (heap e) (concat (map snd visits)) [] of
                Inl err \<Rightarrow> Inl err
              | Inr rangeResults \<Rightarrow>
                  Inr ((rangeResults, comparisons idx1), e\<lparr>lastIndex := idx1\<rparr>)))"

section \<open>Invariants of the store\<close>

text \<open>
  The primary index is a search tree; each of its entries points into the heap at a record
  with the entry's id; and every record whose flag is clear is found under its id at its
  own position.
\<close>

definition ids_ok :: "'p Engine \<Rightarrow> bool" where
  "ids_ok e =
     (bst (root (idIndex e)) \<and>
      (\<forall>(i, rid) \<in> set (inorder (root (idIndex e))).
          rid < length (heap e) \<and> rec_id (heap e ! rid) = i) \<and>
      (\<forall>rid \<in> {..<length (heap e)}.
          \<not> deleted (heap e ! rid) \<longrightarrow>
          find_node (rec_id (heap e ! rid)) (root (idIndex e)) = Some rid))"

text \<open>
  The secondary index is a search tree; a bucket holds no position twice, and each position
  in it points into the heap at a record whose lower-cased last name is the bucket's key.
\<close>

definition buckets_ok :: "'p Engine \<Rightarrow> bool" where
  "buckets_ok e =
     (bst (root (lastIndex e)) \<and>
      (\<forall>(name, bucket) \<in> set (inorder (root (lastIndex e))).
          distinct bucket \<and>
          (\<forall>rid \<in> set bucket.
              rid < length (heap e) \<and> toLower (rec_last (heap e ! rid)) = name)))"

definition store_ok :: "'p Engine \<Rightarrow> bool" where
  "store_ok e = (ids_ok e \<and> buckets_ok e)"

text \<open>The bucket stored under a name, empty when there is none.\<close>

definition bucket_of :: "string \<Rightarrow> (string, nat list) node \<Rightarrow> nat list" where
  "bucket_of name t = (case find_node name t of None \<Rightarrow> [] | Some bucket \<Rightarrow> bucket)"

text \<open>
  Invariants 1 to 3 of the data model: on top of \<open>store_ok\<close>, every entry of either
  index points at a record whose flag is clear, and every such record is in the bucket of its
  own lower-cased last name.
\<close>

definition ids_live :: "'p Engine \<Rightarrow> bool" where
  "ids_live e = (\<forall>(i, rid) \<in> set (inorder (root (idIndex e))). \<not> deleted (heap e ! rid))"

definition buckets_exact :: "'p Engine \<Rightarrow> bool" where
  "buckets_exact e =
     ((\<forall>(name, bucket) \<in> set (inorder (root (lastIndex e))).
          \<forall>rid \<in> set bucket. \<not> deleted (heap e ! rid)) \<and>
      (\<forall>rid \<in> {..<length (heap e)}.
          \<not> deleted (heap e ! rid) \<longrightarrow>
          rid \<in> set (bucket_of (toLower (rec_last (heap e ! rid))) (root (lastIndex e)))))"

definition store_inv :: "'p Engine \<Rightarrow> bool" where
  "store_inv e = (store_ok e \<and> ids_live e \<and> buckets_exact e)"

section \<open>Runs of the engine\<close>

text \<open>
  \<open>evolves_avoiding S e e'\<close>: the state \<open>e'\<close> is reached from \<open>e\<close> by completed
  public operations, none of them an \<open>insertRecord\<close> of an id in \<open>S\<close>. The
  argument of an \<open>insertRecord\<close> is any record or any reference into the heap, and the
  re-read of \<open>deleteById\<close> is arbitrary at every step.
\<close>

inductive evolves_avoiding :: "int set \<Rightarrow> 'p Engine \<Rightarrow> 'p Engine \<Rightarrow> bool"
  for S :: "int set" where
  ev_refl: "evolves_avoiding S e e"
| ev_insert: "evolves_avoiding S e e1 \<Longrightarrow> rec_id (deref recIn (heap e1)) \<notin> S \<Longrightarrow>
     insertRecord recIn e1 = Inr (pos, e2) \<Longrightarrow> evolves_avoiding S e e2"
| ev_delete: "evolves_avoiding S e e1 \<Longrightarrow>
     deleteById reread i e1 = Inr (ok, e2) \<Longrightarrow> evolves_avoiding S e e2"
| ev_find: "evolves_avoiding S e e1 \<Longrightarrow>
     findById i e1 = Inr (out, e2) \<Longrightarrow> evolves_avoiding S e e2"
| ev_range: "evolves_avoiding S e e1 \<Longrightarrow>
     rangeById lo hi e1 = Inr (out', e2) \<Longrightarrow> evolves_avoiding S e e2"
| ev_prefix: "evolves_avoiding S e e1 \<Longrightarrow>
     prefixByLast pfx e1 = Inr (out', e2) \<Longrightarrow> evolves_avoiding S e e2"

definition evolves :: "'p Engine \<Rightarrow> 'p Engine \<Rightarrow> bool" where
  "evolves e e' = evolves_avoiding {} e e'"

text \<open>The records of a store whose flag is clear, by position.\<close>

definition live :: "'p Engine \<Rightarrow> nat \<Rightarrow> bool" where
  "live e rid = (rid < length (heap e) \<and> \<not> deleted (heap e ! rid))"

text \<open>The lower-cased last name of the record at a position.\<close>

definition name_at :: "'p Engine \<Rightarrow> nat \<Rightarrow> string" where
  "name_at e rid = toLower (rec_last (heap e ! rid))"

text \<open>No operation clears a deleted flag or moves a record.\<close>

definition flags_kept :: "'p Engine \<Rightarrow> 'p Engine \<Rightarrow> bool" where
  "flags_kept e e' =
     (length (heap e) \<le> length (heap e') \<and>
      (\<forall>x. x < length (heap e) \<longrightarrow> deleted (heap e ! x) \<longrightarrow> deleted (heap e' ! x)))"

text \<open>The letters \<open>A..Z\<close> and \<open>a..z\<close>.\<close>

definition alphabetic :: "char \<Rightarrow> bool" where
  "alphabetic c = (CHR ''A'' \<le> c \<and> c \<le> CHR ''Z'' \<or> CHR ''a'' \<le> c \<and> c \<le> CHR ''z'')"

section \<open>Example stores\<close>

definition mk :: "int \<Rightarrow> string \<Rightarrow> Record" where
  "mk i name = \<lparr>rec_id = i, rec_last = name, deleted = False\<rparr>"

text \<open>
  The store after inserting the given records, each passed from outside the heap, in order,
  into the empty store.
\<close>

definition after_inserts :: "'p Record_scheme list \<Rightarrow> 'p Engine" where
  "after_inserts rs =
     fold (\<lambda>r e. case insertRecord (Passed r) e of Inr (pos, e') \<Rightarrow> e' | Inl err \<Rightarrow> e)
       rs empty_engine"

text \<open>The scenario of the specification: ids 10, 5, 20, 1 with names Lee, Kim, Kim, Park.\<close>

definition demo :: "unit Engine" where
  "demo = after_inserts [mk 10 ''Lee'', mk 5 ''Kim'', mk 20 ''Kim'', mk 1 ''Park'']"

definition smiths :: "unit Engine" where
  "smiths = after_inserts [mk 1 ''Smith'', mk 2 ''SMITHSON'']"

text \<open>One record: id 1, last name Smith.\<close>

definition single :: "unit Engine" where
  "single = after_inserts [mk 1 ''Smith'']"

text \<open>
  One record whose last name is \<open>Mu\<close>, the two bytes \<open>0xC3 0xB1\<close> (n with tilde
  in UTF-8), \<open>oz\<close>.
\<close>

definition munoz :: "unit Engine" where
  "munoz = after_inserts [mk 7 [CHR ''M'', CHR ''u'', CHR 0xC3, CHR 0xB1, CHR ''o'', CHR ''z'']]"

section \<open>Facts about the ordered index\<close>

lemma find_node_keys: "find_node k t = Some v \<Longrightarrow> k \<in> keys t"
  by (induction t) (auto split: if_splits)

lemma find_node_notin: "k \<notin> keys t \<Longrightarrow> find_node k t = None"
  by (induction t) auto

lemma keys_find_node: "bst t \<Longrightarrow> k \<in> keys t \<Longrightarrow> \<exists>v. find_node k t = Some v"
  by (induction t) (auto)

lemma keys_find_iff: "bst t \<Longrightarrow> (k \<in> keys t) = (find_node k t \<noteq> None)"
  using keys_find_node[of t k] find_node_keys[of k t] by auto

lemma find_insert_node:
  "find_node k (insert_node k' v t) = (if k = k' then Some v else find_node k t)"
  by (induction t) auto

lemma keys_insert_node: "keys (insert_node k v t) = insert k (keys t)"
  by (induction t) auto

lemma bst_insert_node: "bst t \<Longrightarrow> bst (insert_node k v t)"
  by (induction t) (auto simp: keys_insert_node)

lemma find_write_node:
  "find_node k (write_node k' f t) = (if k = k' then map_option f (find_node k t) else find_node k t)"
  by (induction t) auto

lemma keys_write_node: "keys (write_node k f t) = keys t"
  by (induction t) auto

lemma bst_write_node: "bst t \<Longrightarrow> bst (write_node k f t)"
  by (induction t) (auto simp: keys_write_node)

lemma min_node_in: "fst (min_node l a b) \<in> insert a (keys l)"
  by (induction l a b rule: min_node.induct) auto

lemma min_node_le:
  "bst l \<Longrightarrow> \<forall>x \<in> keys l. x < a \<Longrightarrow> x \<in> insert a (keys l) \<Longrightarrow> fst (min_node l a b) \<le> x"
proof (induction l a b arbitrary: x rule: min_node.induct)
  case (1 a b)
  then show ?case by simp
next
  case (2 l k v r a b)
  have m: "fst (min_node l k v) \<le> k" using 2 by simp
  show ?case using 2 m by (fastforce)
qed

lemma min_node_find:
  "bst l \<Longrightarrow> \<forall>x \<in> keys l. x < a \<Longrightarrow>
   find_node (fst (min_node l a b)) (Node l a b r) = Some (snd (min_node l a b))"
proof (induction l a b arbitrary: r rule: min_node.induct)
  case (1 a b)
  then show ?case by simp
next
  case (2 l k v r' a b)
  have "fst (min_node l k v) \<in> insert k (keys l)" by (rule min_node_in)
  then have "fst (min_node l k v) < a" using 2 by auto
  then show ?case using 2 by simp
qed

lemma keys_erase_node: "bst t \<Longrightarrow> keys (erase_node k t) = keys t - {k}"
proof (induction k t rule: erase_node.induct)
  case (1 k)
  then show ?case by simp
next
  case (2 k l a b r)
  show ?case
  proof (cases "k < a \<or> a < k")
    case True
    then show ?thesis using 2 by (auto)
  next
    case False
    then have ka: "k = a" by auto
    show ?thesis
    proof (cases l)
      case Null
      then show ?thesis using 2 ka by auto
    next
      case (Node ll lk lv lr)
      note L = this
      show ?thesis
      proof (cases r)
        case Null
        then show ?thesis using 2 ka L by auto
      next
        case (Node rl rk rv rr)
        let ?s = "fst (min_node rl rk rv)"
        have sin: "?s \<in> keys r" using Node min_node_in[of rl rk rv] by auto
        have ih: "keys (erase_node ?s r) = keys r - {?s}"
          using 2 ka L Node by simp
        show ?thesis using 2 ka L Node ih sin by auto
      qed
    qed
  qed
qed


lemma bst_erase_node: "bst t \<Longrightarrow> bst (erase_node k t)"
proof (induction k t rule: erase_node.induct)
  case (1 k)
  then show ?case by simp
next
  case (2 k l a b r)
  have bl: "bst l" and br: "bst r" and la: "\<forall>x \<in> keys l. x < a" and ra: "\<forall>x \<in> keys r. a < x"
    using "2.prems" by auto
  show ?case
  proof (cases "k < a")
    case True
    have "bst (erase_node k l)" using "2.IH"(1)[OF True bl] .
    then show ?thesis using True bl br la ra by (simp add: keys_erase_node)
  next
    case False
    note nlt = this
    show ?thesis
    proof (cases "a < k")
      case True
      have "bst (erase_node k r)" using "2.IH"(2)[OF nlt True br] .
      then show ?thesis using nlt True bl br la ra by (simp add: keys_erase_node)
    next
      case False
      note ngt = this
      show ?thesis
      proof (cases l)
        case Null
        then show ?thesis using nlt ngt br by simp
      next
        case (Node ll lk lv lr)
        note L = this
        show ?thesis
        proof (cases r)
          case Null
          then show ?thesis using nlt ngt bl L by simp
        next
          case (Node rl rk rv rr)
          let ?s = "fst (min_node rl rk rv)"
          have brl: "bst rl" and lt: "\<forall>x \<in> keys rl. x < rk"
            using br Node by auto
          have sin: "?s \<in> keys r" using Node min_node_in[of rl rk rv] by auto
          have smin: "\<forall>x \<in> keys r. ?s \<le> x"
          proof
            fix x assume "x \<in> keys r"
            then consider "x \<in> insert rk (keys rl)" | "x \<in> keys rr" using Node by auto
            then show "?s \<le> x"
            proof cases
              case 1
              then show ?thesis using min_node_le[OF brl lt] by blast
            next
              case 2
              have "?s \<le> rk" using min_node_le[OF brl lt, of rk] by simp
              moreover have "rk < x" using br Node 2 by auto
              ultimately show ?thesis by simp
            qed
          qed
          have ih: "bst (erase_node ?s r)" using "2.IH"(3)[OF nlt ngt L Node br] .
          have ks: "keys (erase_node ?s r) = keys r - {?s}" by (rule keys_erase_node[OF br])
          have as: "a < ?s" using ra sin by auto
          have c1: "\<forall>x \<in> keys l. x < ?s" using la as by fastforce
          have c2: "\<forall>x \<in> keys (erase_node ?s r). ?s < x" using ks smin by fastforce
          have e: "erase_node k (Node l a b r) = Node l ?s (snd (min_node rl rk rv)) (erase_node ?s r)"
            using nlt ngt L Node by simp
          show ?thesis unfolding e using bl ih c1 c2 by simp
        qed
      qed
    qed
  qed
qed

lemma find_erase_node:
  "bst t \<Longrightarrow> find_node k' (erase_node k t) = (if k' = k then None else find_node k' t)"
proof (induction k t arbitrary: k' rule: erase_node.induct)
  case (1 k)
  then show ?case by simp
next
  case (2 k l a b r)
  have nl: "\<And>x. \<not> x < a \<Longrightarrow> find_node x l = None"
    using "2.prems" by (intro find_node_notin) auto
  have nr: "\<And>x. \<not> a < x \<Longrightarrow> find_node x r = None"
    using "2.prems" by (intro find_node_notin) auto
  show ?case
  proof (cases "k < a \<or> a < k")
    case True
    then show ?thesis using 2 by (auto)
  next
    case False
    then have ka: "k = a" by auto
    show ?thesis
    proof (cases l)
      case Null
      then have "erase_node k (Node l a b r) = r" using ka by simp
      then show ?thesis using nl[of k'] nr[of k'] ka Null by auto
    next
      case (Node ll lk lv lr)
      note L = this
      show ?thesis
      proof (cases r)
        case Null
        then have "erase_node k (Node l a b r) = l" using ka L by simp
        then show ?thesis using nl[of k'] nr[of k'] ka Null by auto
      next
        case (Node rl rk rv rr)
        let ?s = "fst (min_node rl rk rv)"
        let ?sv = "snd (min_node rl rk rv)"
        have br: "bst r" and brl: "bst rl" and lt: "\<forall>x \<in> keys rl. x < rk"
          using "2.prems" Node by auto
        have sin: "?s \<in> keys r" using Node min_node_in[of rl rk rv] by auto
        have as: "a < ?s" using "2.prems" sin by auto
        have fs: "find_node ?s r = Some ?sv"
          using min_node_find[OF brl lt, of rv rr] Node by simp
        have smin: "\<And>x. x < ?s \<Longrightarrow> find_node x r = None"
        proof (rule find_node_notin)
          fix x assume xs: "x < ?s"
          show "x \<notin> keys r"
          proof
            assume "x \<in> keys r"
            then consider "x \<in> insert rk (keys rl)" | "x \<in> keys rr" using Node by auto
            then show False
            proof cases
              case 1
              then show ?thesis using min_node_le[OF brl lt, of x rv] xs by auto
            next
              case 2
              have "?s \<le> rk" using min_node_le[OF brl lt, of rk] by simp
              moreover have "rk < x" using br Node 2 by auto
              ultimately show ?thesis using xs by simp
            qed
          qed
        qed
        have ih: "\<And>x. find_node x (erase_node ?s r) = (if x = ?s then None else find_node x r)"
          using "2.IH"(3)[OF _ _ L Node br] ka by simp
        have e: "erase_node k (Node l a b r) = Node l ?s ?sv (erase_node ?s r)"
          using ka L Node by simp
        show ?thesis
        proof (cases "k' < ?s")
          case True
          then show ?thesis unfolding e using ka as nl smin[of k'] by (auto)
        next
          case False
          then show ?thesis unfolding e using ka as fs ih by (auto)
        qed
      qed
    qed
  qed
qed

lemma keys_inorder: "fst ` set (inorder t) = keys t"
  by (induction t) auto

lemma set_inorder: "bst t \<Longrightarrow> ((k, v) \<in> set (inorder t)) = (find_node k t = Some v)"
proof (induction t)
  case Null
  then show ?case by simp
next
  case (Node l a b r)
  have kl: "\<And>x. (k, x) \<in> set (inorder l) \<Longrightarrow> k < a"
    using Node.prems keys_inorder[of l] by force
  have kr: "\<And>x. (k, x) \<in> set (inorder r) \<Longrightarrow> a < k"
    using Node.prems keys_inorder[of r] by force
  have il: "((k, v) \<in> set (inorder l)) = (find_node k l = Some v)" using Node by simp
  have ir: "((k, v) \<in> set (inorder r)) = (find_node k r = Some v)" using Node by simp
  show ?case
  proof (cases "k < a")
    case True
    then show ?thesis using il kr[of v] by auto
  next
    case False
    note nlt = this
    show ?thesis
    proof (cases "a < k")
      case True
      then show ?thesis using ir kl[of v] by auto
    next
      case False
      then show ?thesis using nlt kl[of v] kr[of v] by auto
    qed
  qed
qed

lemma sorted_inorder: "bst t \<Longrightarrow> sorted_wrt (<) (map fst (inorder t))"
proof (induction t)
  case Null
  then show ?case by simp
next
  case (Node l a b r)
  have "\<forall>x \<in> set (map fst (inorder l)). \<forall>y \<in> set (map fst ((a, b) # inorder r)). x < y"
    using Node.prems keys_inorder[of l] keys_inorder[of r] by (fastforce)
  moreover have "sorted_wrt (<) (map fst ((a, b) # inorder r))"
    using Node keys_inorder[of r] by auto
  ultimately show ?case using Node by (simp add: sorted_wrt_append)
qed

lemma filter_range_below:
  "\<forall>x \<in> fst ` set xs. x < a \<Longrightarrow> \<not> lo < a \<Longrightarrow> filter (\<lambda>(k, v). lo \<le> k \<and> k \<le> hi) xs = []"
  for a :: "'k::linorder"
  by (induction xs) auto

lemma filter_range_above:
  "\<forall>x \<in> fst ` set xs. a < x \<Longrightarrow> \<not> a < hi \<Longrightarrow> filter (\<lambda>(k, v). lo \<le> k \<and> k \<le> hi) xs = []"
  for a :: "'k::linorder"
  by (induction xs) auto

lemma range_visits_filter:
  "bst t \<Longrightarrow> range_visits lo hi t = filter (\<lambda>(k, v). lo \<le> k \<and> k \<le> hi) (inorder t)"
proof (induction t)
  case Null
  then show ?case by simp
next
  case (Node l a b r)
  have bl: "bst l" and br: "bst r" and la: "\<forall>x \<in> keys l. x < a" and ra: "\<forall>x \<in> keys r. a < x"
    using Node.prems by auto
  have l0: "\<not> lo < a \<Longrightarrow> filter (\<lambda>(k, v). lo \<le> k \<and> k \<le> hi) (inorder l) = []"
    using filter_range_below[of "inorder l" a lo hi] la by (simp add: keys_inorder)
  have r0: "\<not> a < hi \<Longrightarrow> filter (\<lambda>(k, v). lo \<le> k \<and> k \<le> hi) (inorder r) = []"
    using filter_range_above[of "inorder r" a hi lo] ra by (simp add: keys_inorder)
  have il: "range_visits lo hi l = filter (\<lambda>(k, v). lo \<le> k \<and> k \<le> hi) (inorder l)"
    using Node.IH(1)[OF bl] .
  have ir: "range_visits lo hi r = filter (\<lambda>(k, v). lo \<le> k \<and> k \<le> hi) (inorder r)"
    using Node.IH(2)[OF br] .
  have vl: "(if lo < a then range_visits lo hi l else []) =
      filter (\<lambda>(k, v). lo \<le> k \<and> k \<le> hi) (inorder l)"
    using il l0 by (cases "lo < a") simp_all
  have vr: "(if a < hi then range_visits lo hi r else []) =
      filter (\<lambda>(k, v). lo \<le> k \<and> k \<le> hi) (inorder r)"
    using ir r0 by (cases "a < hi") simp_all
  have "range_visits lo hi (Node l a b r) =
      filter (\<lambda>(k, v). lo \<le> k \<and> k \<le> hi) (inorder l) @
      (if lo \<le> a \<and> a \<le> hi then [(a, b)] else []) @
      filter (\<lambda>(k, v). lo \<le> k \<and> k \<le> hi) (inorder r)"
    unfolding range_visits.simps vl vr ..
  then show ?case by simp
qed

section \<open>Facts about the engine's steps\<close>

lemma root_find_bst [simp]: "root (snd (find_bst k b)) = root b"
  by (simp add: find_bst_def)

lemma fst_find_bst [simp]: "fst (find_bst k b) = find_node k (root b)"
  by (simp add: find_bst_def)

lemma root_insert_bst [simp]: "root (insert_bst k v b) = insert_node k v (root b)"
  by (simp add: insert_bst_def)

lemma root_write_bst [simp]: "root (write_bst k f b) = write_node k f (root b)"
  by (simp add: write_bst_def)

lemma root_erase_bst [simp]: "root (erase_bst k b) = erase_node k (root b)"
  by (simp add: erase_bst_def)

lemma root_resetMetrics [simp]: "root (resetMetrics b) = root b"
  by (simp add: resetMetrics_def)

lemma find_bucket_add:
  "find_node k (root (bucket_add n rid b)) =
     (if k = n then Some (bucket_of n (root b) @ [rid]) else find_node k (root b))"
  by (cases "find_node n (root b)")
     (simp_all add: bucket_add_def find_bst_def bucket_of_def find_insert_node find_write_node)

lemma bst_bucket_add: "bst (root b) \<Longrightarrow> bst (root (bucket_add n rid b))"
  by (cases "find_node n (root b)")
     (simp_all add: bucket_add_def find_bst_def bst_insert_node bst_write_node)

lemma find_bucket_remove:
  "find_node k (root (bucket_remove n rid b)) =
     (if k = n then map_option (removeAll rid) (find_node k (root b)) else find_node k (root b))"
  by (cases "find_node n (root b)")
     (simp_all add: bucket_remove_def find_bst_def find_write_node)

lemma bst_bucket_remove: "bst (root b) \<Longrightarrow> bst (root (bucket_remove n rid b))"
  by (cases "find_node n (root b)")
     (simp_all add: bucket_remove_def find_bst_def bst_write_node)

lemma ids_ok_iff:
  "ids_ok e =
     (bst (root (idIndex e)) \<and>
      (\<forall>i rid. find_node i (root (idIndex e)) = Some rid \<longrightarrow>
          rid < length (heap e) \<and> rec_id (heap e ! rid) = i) \<and>
      (\<forall>rid. rid < length (heap e) \<longrightarrow> \<not> deleted (heap e ! rid) \<longrightarrow>
          find_node (rec_id (heap e ! rid)) (root (idIndex e)) = Some rid))"
proof (cases "bst (root (idIndex e))")
  case True
  have "(\<forall>(i, rid) \<in> set (inorder (root (idIndex e))).
          rid < length (heap e) \<and> rec_id (heap e ! rid) = i) =
        (\<forall>i rid. find_node i (root (idIndex e)) = Some rid \<longrightarrow>
          rid < length (heap e) \<and> rec_id (heap e ! rid) = i)"
    using set_inorder[OF True] by blast
  then show ?thesis using True by (simp add: ids_ok_def Ball_def)
next
  case False
  then show ?thesis by (simp add: ids_ok_def)
qed

lemma buckets_ok_iff:
  "buckets_ok e =
     (bst (root (lastIndex e)) \<and>
      (\<forall>name bucket. find_node name (root (lastIndex e)) = Some bucket \<longrightarrow>
          distinct bucket \<and>
          (\<forall>rid \<in> set bucket. rid < length (heap e) \<and> toLower (rec_last (heap e ! rid)) = name)))"
proof (cases "bst (root (lastIndex e))")
  case True
  have "(\<forall>(name, bucket) \<in> set (inorder (root (lastIndex e))).
          distinct bucket \<and>
          (\<forall>rid \<in> set bucket. rid < length (heap e) \<and> toLower (rec_last (heap e ! rid)) = name)) =
        (\<forall>name bucket. find_node name (root (lastIndex e)) = Some bucket \<longrightarrow>
          distinct bucket \<and>
          (\<forall>rid \<in> set bucket. rid < length (heap e) \<and> toLower (rec_last (heap e ! rid)) = name))"
    using set_inorder[OF True] by blast
  then show ?thesis using True by (simp add: buckets_ok_def)
next
  case False
  then show ?thesis by (simp add: buckets_ok_def)
qed

lemma ids_live_iff:
  "bst (root (idIndex e)) \<Longrightarrow>
   ids_live e = (\<forall>i rid. find_node i (root (idIndex e)) = Some rid \<longrightarrow> \<not> deleted (heap e ! rid))"
  unfolding ids_live_def using set_inorder[of "root (idIndex e)"] by blast

lemma buckets_exact_iff:
  "bst (root (lastIndex e)) \<Longrightarrow>
   buckets_exact e =
     ((\<forall>name bucket. find_node name (root (lastIndex e)) = Some bucket \<longrightarrow>
          (\<forall>rid \<in> set bucket. \<not> deleted (heap e ! rid))) \<and>
      (\<forall>rid. rid < length (heap e) \<longrightarrow> \<not> deleted (heap e ! rid) \<longrightarrow>
          rid \<in> set (bucket_of (toLower (rec_last (heap e ! rid))) (root (lastIndex e)))))"
proof -
  assume b: "bst (root (lastIndex e))"
  have "(\<forall>(name, bucket) \<in> set (inorder (root (lastIndex e))).
          \<forall>rid \<in> set bucket. \<not> deleted (heap e ! rid)) =
        (\<forall>name bucket. find_node name (root (lastIndex e)) = Some bucket \<longrightarrow>
          (\<forall>rid \<in> set bucket. \<not> deleted (heap e ! rid)))"
    using set_inorder[OF b] by blast
  then show ?thesis by (simp add: buckets_exact_def Ball_def)
qed

lemma insertRecord_new:
  "find_node (rec_id r) (root (idIndex e)) = None \<Longrightarrow>
   insertRecord (Passed r) e =
     Inr (length (heap e),
          e\<lparr>heap := heap e @ [r],
            idIndex := insert_bst (rec_id r) (length (heap e)) (snd (find_bst (rec_id r) (idIndex e))),
            lastIndex := bucket_add (toLower (rec_last r)) (length (heap e)) (lastIndex e)\<rparr>)"
  by (simp add: insertRecord_def find_bst_def Let_def)

lemma insertRecord_update:
  "find_node (rec_id r) (root (idIndex e)) = Some old \<Longrightarrow> old < length (heap e) \<Longrightarrow>
   insertRecord (Passed r) e =
     Inr (length (heap e),
          e\<lparr>heap := (heap e)[old := (heap e ! old)\<lparr>deleted := True\<rparr>] @ [r],
            idIndex := insert_bst (rec_id r) (length (heap e))
                         (erase_bst (rec_id r) (snd (find_bst (rec_id r) (idIndex e)))),
            lastIndex := bucket_add (toLower (rec_last r)) (length (heap e))
                           (bucket_remove (toLower (rec_last (heap e ! old))) old (lastIndex e))\<rparr>)"
  by (simp add: insertRecord_def find_bst_def Let_def)

lemma insertRecord_stale:
  "find_node (rec_id r) (root (idIndex e)) = Some old \<Longrightarrow> \<not> old < length (heap e) \<Longrightarrow>
   insertRecord (Passed r) e = Inl OutOfRange"
  by (simp add: insertRecord_def find_bst_def Let_def)

lemma deleteById_absent:
  "find_node i (root (idIndex e)) = None \<Longrightarrow>
   deleteById g i e = Inr (False, e\<lparr>idIndex := snd (find_bst i (idIndex e))\<rparr>)"
  by (simp add: deleteById_def find_bst_def)

lemma deleteById_present:
  "find_node i (root (idIndex e)) = Some rid \<Longrightarrow> rid < length (heap e) \<Longrightarrow>
   g < length (heap e) \<Longrightarrow>
   deleteById g i e =
     Inr (True,
          e\<lparr>heap := (heap e)[rid := (heap e ! rid)\<lparr>deleted := True\<rparr>],
            idIndex := erase_bst i (snd (find_bst i (idIndex e))),
            lastIndex :=
              bucket_remove
                (toLower (rec_last ((heap e)[rid := (heap e ! rid)\<lparr>deleted := True\<rparr>] ! g)))
                g (lastIndex e)\<rparr>)"
  by (simp add: deleteById_def find_bst_def Let_def)

lemma deleteById_error:
  "find_node i (root (idIndex e)) = Some rid \<Longrightarrow> \<not> (rid < length (heap e) \<and> g < length (heap e)) \<Longrightarrow>
   deleteById g i e = Inl OutOfRange"
  by (auto simp add: deleteById_def find_bst_def Let_def)

lemma ids_okD:
  assumes "ids_ok e"
  shows "bst (root (idIndex e))"
    and "\<And>i rid. find_node i (root (idIndex e)) = Some rid \<Longrightarrow> rid < length (heap e)"
    and "\<And>i rid. find_node i (root (idIndex e)) = Some rid \<Longrightarrow> rec_id (heap e ! rid) = i"
    and "\<And>rid. rid < length (heap e) \<Longrightarrow> \<not> deleted (heap e ! rid) \<Longrightarrow>
           find_node (rec_id (heap e ! rid)) (root (idIndex e)) = Some rid"
  using assms unfolding ids_ok_iff by blast+

lemma buckets_okD:
  assumes "buckets_ok e"
  shows "bst (root (lastIndex e))"
    and "\<And>name bucket. find_node name (root (lastIndex e)) = Some bucket \<Longrightarrow> distinct bucket"
    and "\<And>name bucket rid. find_node name (root (lastIndex e)) = Some bucket \<Longrightarrow>
           rid \<in> set bucket \<Longrightarrow> rid < length (heap e)"
    and "\<And>name bucket rid. find_node name (root (lastIndex e)) = Some bucket \<Longrightarrow>
           rid \<in> set bucket \<Longrightarrow> toLower (rec_last (heap e ! rid)) = name"
  using assms unfolding buckets_ok_iff by blast+

lemma bucket_of_okD:
  assumes "buckets_ok e"
  shows "distinct (bucket_of name (root (lastIndex e)))"
    and "\<And>rid. rid \<in> set (bucket_of name (root (lastIndex e))) \<Longrightarrow> rid < length (heap e)"
    and "\<And>rid. rid \<in> set (bucket_of name (root (lastIndex e))) \<Longrightarrow>
           toLower (rec_last (heap e ! rid)) = name"
  using buckets_okD(2,3,4)[OF assms, of name]
  by (cases "find_node name (root (lastIndex e))"; simp add: bucket_of_def)+

lemma mark_rec_id [simp]:
  "x < length h \<Longrightarrow> rec_id (h[rid := (h ! rid)\<lparr>deleted := True\<rparr>] ! x) = rec_id (h ! x)"
  by (cases "x = rid") simp_all

lemma mark_rec_last [simp]:
  "x < length h \<Longrightarrow> rec_last (h[rid := (h ! rid)\<lparr>deleted := True\<rparr>] ! x) = rec_last (h ! x)"
  by (cases "x = rid") simp_all

lemma mark_deleted [simp]:
  "x < length h \<Longrightarrow>
   deleted (h[rid := (h ! rid)\<lparr>deleted := True\<rparr>] ! x) = (x = rid \<or> deleted (h ! x))"
  by (cases "x = rid") simp_all

text \<open>The three steps the mutating operations are made of.\<close>

lemma ids_ok_append:
  assumes io: "ids_ok e" and none: "find_node (rec_id r) (root (idIndex e)) = None"
    and h: "heap e' = heap e @ [r]"
    and t: "root (idIndex e') = insert_node (rec_id r) (length (heap e)) (root (idIndex e))"
  shows "ids_ok e'"
  unfolding ids_ok_iff
proof (intro conjI allI impI)
  let ?n = "length (heap e)"
  note i = ids_okD[OF io]
  show "bst (root (idIndex e'))" using i(1) by (simp add: t bst_insert_node)
  {
    fix i' rid assume "find_node i' (root (idIndex e')) = Some rid"
    then have c: "(i' = rec_id r \<and> rid = ?n) \<or> (i' \<noteq> rec_id r \<and> find_node i' (root (idIndex e)) = Some rid)"
      by (auto simp: t find_insert_node split: if_splits)
    then show "rid < length (heap e')" using i(2) by (auto simp: h less_Suc_eq)
    show "rec_id (heap e' ! rid) = i'" using c i(2,3) by (auto simp: h nth_append)
  }
  fix rid assume lt: "rid < length (heap e')" and nd: "\<not> deleted (heap e' ! rid)"
  show "find_node (rec_id (heap e' ! rid)) (root (idIndex e')) = Some rid"
  proof (cases "rid = ?n")
    case True
    then show ?thesis by (simp add: h t find_insert_node)
  next
    case False
    then have l: "rid < ?n" using lt by (simp add: h)
    have f: "find_node (rec_id (heap e ! rid)) (root (idIndex e)) = Some rid"
      using i(4)[OF l] nd l by (simp add: h nth_append)
    then have "rec_id (heap e ! rid) \<noteq> rec_id r" using none by auto
    then show ?thesis using f l by (simp add: h t find_insert_node nth_append)
  qed
qed

lemma buckets_ok_append:
  assumes bo: "buckets_ok e"
    and h: "heap e' = heap e @ [r]"
    and t: "root (lastIndex e') =
              root (bucket_add (toLower (rec_last r)) (length (heap e)) (lastIndex e))"
  shows "buckets_ok e'"
  unfolding buckets_ok_iff
proof (intro conjI allI impI ballI)
  let ?n = "length (heap e)"
  note b = buckets_okD[OF bo]
  show "bst (root (lastIndex e'))" using b(1) by (simp add: t bst_bucket_add)
  fix name bucket assume f: "find_node name (root (lastIndex e')) = Some bucket"
  then have c: "(name = toLower (rec_last r) \<and> bucket = bucket_of name (root (lastIndex e)) @ [?n])
      \<or> (name \<noteq> toLower (rec_last r) \<and> find_node name (root (lastIndex e)) = Some bucket)"
    by (auto simp: t find_bucket_add split: if_splits)
  note o = bucket_of_okD[OF bo, where name = name]
  have fresh: "?n \<notin> set (bucket_of name (root (lastIndex e)))" using o(2)[of ?n] by auto
  show "distinct bucket" using c o(1) fresh b(2)[of name bucket] by auto
  fix rid assume m: "rid \<in> set bucket"
  show "rid < length (heap e')" using c o(2) b(3)[of name bucket] m by (auto simp: h less_Suc_eq)
  show "toLower (rec_last (heap e' ! rid)) = name"
    using c o(2,3) b(3,4)[of name bucket] m by (auto simp: h nth_append)
qed

lemma ids_ok_mark:
  assumes io: "ids_ok e" and f: "find_node i (root (idIndex e)) = Some rid"
    and h: "heap e' = (heap e)[rid := (heap e ! rid)\<lparr>deleted := True\<rparr>]"
    and t: "root (idIndex e') = erase_node i (root (idIndex e))"
  shows "ids_ok e'"
  unfolding ids_ok_iff
proof (intro conjI allI impI)
  note i = ids_okD[OF io]
  have fe: "\<And>k. find_node k (root (idIndex e')) = (if k = i then None else find_node k (root (idIndex e)))"
    by (simp add: t find_erase_node[OF i(1)])
  have rid: "rid < length (heap e)" "rec_id (heap e ! rid) = i" using i(2,3)[OF f] by auto
  show "bst (root (idIndex e'))" using i(1) by (simp add: t bst_erase_node)
  {
    fix k x assume "find_node k (root (idIndex e')) = Some x"
    then have c: "k \<noteq> i" "find_node k (root (idIndex e)) = Some x"
      by (auto simp: fe split: if_splits)
    show "x < length (heap e')" using i(2)[OF c(2)] by (simp add: h)
    show "rec_id (heap e' ! x) = k" using i(2,3)[OF c(2)] by (simp add: h)
  }
  fix x assume lt: "x < length (heap e')" and nd: "\<not> deleted (heap e' ! x)"
  then have xr: "x \<noteq> rid" and l: "x < length (heap e)" and nd': "\<not> deleted (heap e ! x)"
    by (auto simp: h)
  have fx: "find_node (rec_id (heap e ! x)) (root (idIndex e)) = Some x" using i(4)[OF l nd'] .
  have "rec_id (heap e ! x) \<noteq> i" using fx f xr by auto
  then show "find_node (rec_id (heap e' ! x)) (root (idIndex e')) = Some x"
    using fx xr l by (simp add: fe h)
qed

lemma buckets_ok_mark:
  assumes bo: "buckets_ok e"
    and h: "heap e' = (heap e)[rid := (heap e ! rid)\<lparr>deleted := True\<rparr>]"
    and t: "root (lastIndex e') = root (lastIndex e)"
  shows "buckets_ok e'"
  unfolding buckets_ok_iff
proof (intro conjI allI impI ballI)
  note b = buckets_okD[OF bo]
  show "bst (root (lastIndex e'))" using b(1) by (simp add: t)
  fix name bucket assume f: "find_node name (root (lastIndex e')) = Some bucket"
  then have f': "find_node name (root (lastIndex e)) = Some bucket" by (simp add: t)
  show "distinct bucket" using b(2)[OF f'] .
  fix x assume m: "x \<in> set bucket"
  show "x < length (heap e')" using b(3)[OF f' m] by (simp add: h)
  show "toLower (rec_last (heap e' ! x)) = name"
    using b(3,4)[OF f' m] by (simp add: h)
qed

lemma buckets_ok_remove:
  assumes bo: "buckets_ok e"
    and h: "heap e' = heap e"
    and t: "root (lastIndex e') = root (bucket_remove name g (lastIndex e))"
  shows "buckets_ok e'"
  unfolding buckets_ok_iff
proof (intro conjI allI impI ballI)
  note b = buckets_okD[OF bo]
  show "bst (root (lastIndex e'))" using b(1) by (simp add: t bst_bucket_remove)
  fix k bucket assume f: "find_node k (root (lastIndex e')) = Some bucket"
  then obtain old where o: "find_node k (root (lastIndex e)) = Some old"
      and s: "set bucket \<subseteq> set old" and d: "distinct old \<longrightarrow> distinct bucket"
    by (auto simp: t find_bucket_remove distinct_removeAll split: if_splits)
  show "distinct bucket" using b(2)[OF o] d by simp
  fix x assume m: "x \<in> set bucket"
  then have m': "x \<in> set old" using s by auto
  show "x < length (heap e')" using b(3)[OF o m'] by (simp add: h)
  show "toLower (rec_last (heap e' ! x)) = k" using b(4)[OF o m'] by (simp add: h)
qed

lemma ids_ok_cong:
  "heap e' = heap e \<Longrightarrow> root (idIndex e') = root (idIndex e) \<Longrightarrow> ids_ok e' = ids_ok e"
  by (simp add: ids_ok_def)

lemma buckets_ok_cong:
  "heap e' = heap e \<Longrightarrow> root (lastIndex e') = root (lastIndex e) \<Longrightarrow> buckets_ok e' = buckets_ok e"
  by (simp add: buckets_ok_def)

lemma store_ok_cong:
  "heap e' = heap e \<Longrightarrow> root (idIndex e') = root (idIndex e) \<Longrightarrow>
   root (lastIndex e') = root (lastIndex e) \<Longrightarrow> store_ok e' = store_ok e"
  by (simp add: store_ok_def ids_ok_def buckets_ok_def)

lemma store_inv_cong:
  "heap e' = heap e \<Longrightarrow> root (idIndex e') = root (idIndex e) \<Longrightarrow>
   root (lastIndex e') = root (lastIndex e) \<Longrightarrow> store_inv e' = store_inv e"
  by (simp add: store_inv_def store_ok_def ids_ok_def buckets_ok_def ids_live_def buckets_exact_def)

lemma bucket_of_add:
  "bucket_of k (root (bucket_add n rid b)) =
     (if k = n then bucket_of n (root b) @ [rid] else bucket_of k (root b))"
  by (simp add: bucket_of_def find_bucket_add)

lemma bucket_of_remove:
  "bucket_of k (root (bucket_remove n rid b)) =
     (if k = n then removeAll rid (bucket_of k (root b)) else bucket_of k (root b))"
  by (cases "find_node k (root b)") (auto simp: bucket_of_def find_bucket_remove)

lemma ids_live_append:
  assumes io: "ids_ok e" and il: "ids_live e" and nd: "\<not> deleted r"
    and h: "heap e' = heap e @ [r]"
    and t: "root (idIndex e') = insert_node (rec_id r) (length (heap e)) (root (idIndex e))"
  shows "ids_live e'"
proof -
  note i = ids_okD[OF io]
  have b': "bst (root (idIndex e'))" using i(1) by (simp add: t bst_insert_node)
  have l: "\<And>k x. find_node k (root (idIndex e)) = Some x \<Longrightarrow> \<not> deleted (heap e ! x)"
    using il unfolding ids_live_iff[OF i(1)] by blast
  show ?thesis
    unfolding ids_live_iff[OF b']
  proof (intro allI impI)
    fix k x assume "find_node k (root (idIndex e')) = Some x"
    then have "(k = rec_id r \<and> x = length (heap e)) \<or> find_node k (root (idIndex e)) = Some x"
      by (auto simp: t find_insert_node split: if_splits)
    then show "\<not> deleted (heap e' ! x)" using nd l[of k x] i(2)[of k x] by (auto simp: h nth_append)
  qed
qed

lemma ids_live_mark:
  assumes io: "ids_ok e" and il: "ids_live e" and f: "find_node i (root (idIndex e)) = Some rid"
    and h: "heap e' = (heap e)[rid := (heap e ! rid)\<lparr>deleted := True\<rparr>]"
    and t: "root (idIndex e') = erase_node i (root (idIndex e))"
  shows "ids_live e'"
proof -
  note i = ids_okD[OF io]
  have b': "bst (root (idIndex e'))" using i(1) by (simp add: t bst_erase_node)
  have l: "\<And>k x. find_node k (root (idIndex e)) = Some x \<Longrightarrow> \<not> deleted (heap e ! x)"
    using il unfolding ids_live_iff[OF i(1)] by blast
  show ?thesis
    unfolding ids_live_iff[OF b']
  proof (intro allI impI)
    fix k x assume "find_node k (root (idIndex e')) = Some x"
    then have c: "k \<noteq> i" "find_node k (root (idIndex e)) = Some x"
      by (auto simp: t find_erase_node[OF i(1)] split: if_splits)
    have "x \<noteq> rid" using i(3)[OF c(2)] i(3)[OF f] c(1) by auto
    then show "\<not> deleted (heap e' ! x)" using l[OF c(2)] i(2)[OF c(2)] by (simp add: h)
  qed
qed

lemma buckets_exact_append:
  assumes bo: "buckets_ok e" and be: "buckets_exact e" and nd: "\<not> deleted r"
    and h: "heap e' = heap e @ [r]"
    and t: "root (lastIndex e') =
              root (bucket_add (toLower (rec_last r)) (length (heap e)) (lastIndex e))"
  shows "buckets_exact e'"
proof -
  let ?n = "length (heap e)"
  note b = buckets_okD[OF bo]
  have b': "bst (root (lastIndex e'))" using b(1) by (simp add: t bst_bucket_add)
  have x1: "\<And>k bucket x. find_node k (root (lastIndex e)) = Some bucket \<Longrightarrow> x \<in> set bucket \<Longrightarrow>
              \<not> deleted (heap e ! x)"
    and x2: "\<And>x. x < ?n \<Longrightarrow> \<not> deleted (heap e ! x) \<Longrightarrow>
              x \<in> set (bucket_of (toLower (rec_last (heap e ! x))) (root (lastIndex e)))"
    using be unfolding buckets_exact_iff[OF b(1)] by blast+
  have x1': "\<And>k x. x \<in> set (bucket_of k (root (lastIndex e))) \<Longrightarrow> \<not> deleted (heap e ! x)"
  proof -
    fix k x assume m: "x \<in> set (bucket_of k (root (lastIndex e)))"
    then obtain bucket where "find_node k (root (lastIndex e)) = Some bucket" "x \<in> set bucket"
      by (cases "find_node k (root (lastIndex e))") (auto simp: bucket_of_def)
    then show "\<not> deleted (heap e ! x)" by (rule x1)
  qed
  show ?thesis
    unfolding buckets_exact_iff[OF b']
  proof (intro conjI allI impI ballI)
    fix k bucket x assume f: "find_node k (root (lastIndex e')) = Some bucket" and m: "x \<in> set bucket"
    then have "x = ?n \<or> (x \<in> set (bucket_of k (root (lastIndex e))))"
      by (auto simp: t find_bucket_add bucket_of_def split: if_splits)
    then show "\<not> deleted (heap e' ! x)"
      using nd x1'[of x k] bucket_of_okD(2)[OF bo, of x k] by (auto simp: h nth_append)
  next
    fix x assume lt: "x < length (heap e')" and l: "\<not> deleted (heap e' ! x)"
    show "x \<in> set (bucket_of (toLower (rec_last (heap e' ! x))) (root (lastIndex e')))"
    proof (cases "x = ?n")
      case True
      then show ?thesis by (simp add: h t bucket_of_add)
    next
      case False
      then have xl: "x < ?n" using lt by (simp add: h)
      then show ?thesis using x2[OF xl] l by (auto simp: h t bucket_of_add nth_append)
    qed
  qed
qed

lemma buckets_exact_mark_remove:
  assumes bo: "buckets_ok e" and be: "buckets_exact e" and r: "rid < length (heap e)"
    and h: "heap e' = (heap e)[rid := (heap e ! rid)\<lparr>deleted := True\<rparr>]"
    and t: "root (lastIndex e') =
              root (bucket_remove (toLower (rec_last (heap e ! rid))) rid (lastIndex e))"
  shows "buckets_exact e'"
proof -
  let ?nm = "toLower (rec_last (heap e ! rid))"
  note b = buckets_okD[OF bo]
  have b': "bst (root (lastIndex e'))" using b(1) by (simp add: t bst_bucket_remove)
  have x1: "\<And>k bucket x. find_node k (root (lastIndex e)) = Some bucket \<Longrightarrow> x \<in> set bucket \<Longrightarrow>
              \<not> deleted (heap e ! x)"
    and x2: "\<And>x. x < length (heap e) \<Longrightarrow> \<not> deleted (heap e ! x) \<Longrightarrow>
              x \<in> set (bucket_of (toLower (rec_last (heap e ! x))) (root (lastIndex e)))"
    using be unfolding buckets_exact_iff[OF b(1)] by blast+
  show ?thesis
    unfolding buckets_exact_iff[OF b']
  proof (intro conjI allI impI ballI)
    fix k bucket x assume f: "find_node k (root (lastIndex e')) = Some bucket" and m: "x \<in> set bucket"
    then obtain old where o: "find_node k (root (lastIndex e)) = Some old" and xo: "x \<in> set old"
      and c: "k = ?nm \<longrightarrow> x \<noteq> rid"
      by (auto simp: t find_bucket_remove split: if_splits)
    have "x \<noteq> rid" using c b(4)[OF o xo] by auto
    then show "\<not> deleted (heap e' ! x)" using x1[OF o xo] b(3)[OF o xo] by (simp add: h)
  next
    fix x assume lt: "x < length (heap e')" and l: "\<not> deleted (heap e' ! x)"
    then have xr: "x \<noteq> rid" and xl: "x < length (heap e)" and nd: "\<not> deleted (heap e ! x)"
      by (auto simp: h)
    show "x \<in> set (bucket_of (toLower (rec_last (heap e' ! x))) (root (lastIndex e')))"
      using x2[OF xl nd] xr xl by (auto simp: h t bucket_of_remove)
  qed
qed

text \<open>
  An insert through a reference into the heap is the insert of the record that
  \<open>push_back\<close> copies.
\<close>

lemma stored_copy_Passed [simp]: "stored_copy (Passed r) e = r"
  by (simp add: stored_copy_def split: option.splits)

lemma stored_copy_fields:
  "valid_ref recIn (heap e) \<Longrightarrow>
   rec_id (stored_copy recIn e) = rec_id (deref recIn (heap e)) \<and>
   rec_last (stored_copy recIn e) = rec_last (deref recIn (heap e))"
  by (cases recIn) (simp_all add: stored_copy_def split: option.splits)

lemma insertRecord_ref:
  "insertRecord recIn e =
     (if valid_ref recIn (heap e) then insertRecord (Passed (stored_copy recIn e)) e
      else Inl OutOfRange)"
proof (cases recIn)
  case (Passed r)
  then show ?thesis by simp
next
  case (Held k)
  show ?thesis
  proof (cases "k < length (heap e)")
    case False
    then show ?thesis using Held by (simp add: insertRecord_def)
  next
    case True
    show ?thesis
    proof (cases "find_node (rec_id (heap e ! k)) (root (idIndex e))")
      case None
      then show ?thesis using Held True
        by (simp add: insertRecord_def stored_copy_def find_bst_def Let_def nth_append)
    next
      case (Some old)
      then show ?thesis using Held True
        by (simp add: insertRecord_def stored_copy_def find_bst_def Let_def nth_append)
    qed
  qed
qed

lemma insertRecord_refD:
  assumes "insertRecord recIn e = Inr (p, e')"
  shows "valid_ref recIn (heap e)" and "insertRecord (Passed (stored_copy recIn e)) e = Inr (p, e')"
  using assms insertRecord_ref[of recIn e] by (auto split: if_splits)

lemma insertRecord_cases:
  assumes res: "insertRecord (Passed r) e = Inr (p, e')"
  obtains (new) "find_node (rec_id r) (root (idIndex e)) = None" "p = length (heap e)"
      "e' = e\<lparr>heap := heap e @ [r],
            idIndex := insert_bst (rec_id r) (length (heap e)) (snd (find_bst (rec_id r) (idIndex e))),
            lastIndex := bucket_add (toLower (rec_last r)) (length (heap e)) (lastIndex e)\<rparr>"
  | (update) old where "find_node (rec_id r) (root (idIndex e)) = Some old" "old < length (heap e)"
      "p = length (heap e)"
      "e' = e\<lparr>heap := (heap e)[old := (heap e ! old)\<lparr>deleted := True\<rparr>] @ [r],
            idIndex := insert_bst (rec_id r) (length (heap e))
                         (erase_bst (rec_id r) (snd (find_bst (rec_id r) (idIndex e)))),
            lastIndex := bucket_add (toLower (rec_last r)) (length (heap e))
                           (bucket_remove (toLower (rec_last (heap e ! old))) old (lastIndex e))\<rparr>"
proof (cases "find_node (rec_id r) (root (idIndex e))")
  case None
  show ?thesis using res insertRecord_new[OF None] new[OF None] by auto
next
  case (Some old)
  show ?thesis
  proof (cases "old < length (heap e)")
    case True
    show ?thesis using res insertRecord_update[OF Some True] update[OF Some True] by auto
  next
    case False
    then show ?thesis using res insertRecord_stale[OF Some False] by simp
  qed
qed

lemma deleteById_cases:
  assumes res: "deleteById g i e = Inr (ok, e')"
  obtains (absent) "find_node i (root (idIndex e)) = None" "ok = False"
      "e' = e\<lparr>idIndex := snd (find_bst i (idIndex e))\<rparr>"
  | (present) rid where "find_node i (root (idIndex e)) = Some rid" "rid < length (heap e)"
      "g < length (heap e)" "ok = True"
      "e' = e\<lparr>heap := (heap e)[rid := (heap e ! rid)\<lparr>deleted := True\<rparr>],
            idIndex := erase_bst i (snd (find_bst i (idIndex e))),
            lastIndex :=
              bucket_remove
                (toLower (rec_last ((heap e)[rid := (heap e ! rid)\<lparr>deleted := True\<rparr>] ! g)))
                g (lastIndex e)\<rparr>"
proof (cases "find_node i (root (idIndex e))")
  case None
  show ?thesis using res deleteById_absent[OF None, of g] absent[OF None] by auto
next
  case (Some rid)
  show ?thesis
  proof (cases "rid < length (heap e) \<and> g < length (heap e)")
    case True
    then have a: "rid < length (heap e)" and b: "g < length (heap e)" by auto
    show ?thesis using res deleteById_present[OF Some a b] present[OF Some a b] by auto
  next
    case False
    then show ?thesis using res deleteById_error[OF Some False] by simp
  qed
qed

lemma store_ok_insertRecord_passed:
  assumes ok: "store_ok e" and res: "insertRecord (Passed r) e = Inr (p, e')"
  shows "store_ok e'"
proof -
  have io: "ids_ok e" and bo: "buckets_ok e" using ok by (simp_all add: store_ok_def)
  from res show ?thesis
  proof (cases rule: insertRecord_cases)
    case new
    have "ids_ok e'" by (rule ids_ok_append[OF io new(1)]) (simp_all add: new(3))
    moreover have "buckets_ok e'" by (rule buckets_ok_append[OF bo]) (simp_all add: new(3))
    ultimately show ?thesis by (simp add: store_ok_def)
  next
    case (update old)
    define m where "m = e\<lparr>heap := (heap e)[old := (heap e ! old)\<lparr>deleted := True\<rparr>],
        idIndex := erase_bst (rec_id r) (snd (find_bst (rec_id r) (idIndex e))),
        lastIndex := bucket_remove (toLower (rec_last (heap e ! old))) old (lastIndex e)\<rparr>"
    have im: "ids_ok m" by (rule ids_ok_mark[OF io update(1)]) (simp_all add: m_def)
    have "buckets_ok (e\<lparr>heap := (heap e)[old := (heap e ! old)\<lparr>deleted := True\<rparr>]\<rparr>)"
      by (rule buckets_ok_mark[OF bo]) simp_all
    then have bm: "buckets_ok m" by (rule buckets_ok_remove) (simp_all add: m_def)
    have nm: "find_node (rec_id r) (root (idIndex m)) = None"
      by (simp add: m_def find_erase_node[OF ids_okD(1)[OF io]])
    have "ids_ok e'" by (rule ids_ok_append[OF im nm]) (simp_all add: update(4) m_def)
    moreover have "buckets_ok e'" by (rule buckets_ok_append[OF bm]) (simp_all add: update(4) m_def)
    ultimately show ?thesis by (simp add: store_ok_def)
  qed
qed

lemma store_ok_insertRecord:
  assumes ok: "store_ok e" and res: "insertRecord recIn e = Inr (p, e')"
  shows "store_ok e'"
  using store_ok_insertRecord_passed[OF ok insertRecord_refD(2)[OF res]] .

lemma store_inv_insertRecord:
  assumes inv: "store_inv e" and nd: "\<not> deleted r" and res: "insertRecord (Passed r) e = Inr (p, e')"
  shows "store_inv e'"
proof -
  have ok: "store_ok e" and il: "ids_live e" and be: "buckets_exact e"
    using inv by (simp_all add: store_inv_def)
  have io: "ids_ok e" and bo: "buckets_ok e" using ok by (simp_all add: store_ok_def)
  have ok': "store_ok e'" by (rule store_ok_insertRecord[OF ok res])
  from res have "ids_live e' \<and> buckets_exact e'"
  proof (cases rule: insertRecord_cases)
    case new
    have "ids_live e'" by (rule ids_live_append[OF io il nd]) (simp_all add: new(3))
    moreover have "buckets_exact e'" by (rule buckets_exact_append[OF bo be nd]) (simp_all add: new(3))
    ultimately show ?thesis by simp
  next
    case (update old)
    define m where "m = e\<lparr>heap := (heap e)[old := (heap e ! old)\<lparr>deleted := True\<rparr>],
        idIndex := erase_bst (rec_id r) (snd (find_bst (rec_id r) (idIndex e))),
        lastIndex := bucket_remove (toLower (rec_last (heap e ! old))) old (lastIndex e)\<rparr>"
    have im: "ids_ok m" by (rule ids_ok_mark[OF io update(1)]) (simp_all add: m_def)
    have "buckets_ok (e\<lparr>heap := (heap e)[old := (heap e ! old)\<lparr>deleted := True\<rparr>]\<rparr>)"
      by (rule buckets_ok_mark[OF bo]) simp_all
    then have bm: "buckets_ok m" by (rule buckets_ok_remove) (simp_all add: m_def)
    have lm: "ids_live m" by (rule ids_live_mark[OF io il update(1)]) (simp_all add: m_def)
    have em: "buckets_exact m"
      by (rule buckets_exact_mark_remove[OF bo be update(2)]) (simp_all add: m_def)
    have "ids_live e'" by (rule ids_live_append[OF im lm nd]) (simp_all add: update(4) m_def)
    moreover have "buckets_exact e'"
      by (rule buckets_exact_append[OF bm em nd]) (simp_all add: update(4) m_def)
    ultimately show ?thesis by simp
  qed
  then show ?thesis using ok' by (simp add: store_inv_def)
qed

lemma store_ok_deleteById:
  assumes ok: "store_ok e" and res: "deleteById g i e = Inr (b, e')"
  shows "store_ok e'"
proof -
  have io: "ids_ok e" and bo: "buckets_ok e" using ok by (simp_all add: store_ok_def)
  from res show ?thesis
  proof (cases rule: deleteById_cases)
    case absent
    have "store_ok e' = store_ok e" by (rule store_ok_cong) (simp_all add: absent(3))
    then show ?thesis using ok by simp
  next
    case (present rid)
    have "ids_ok e'" by (rule ids_ok_mark[OF io present(1)]) (simp_all add: present(5))
    moreover have "buckets_ok (e\<lparr>heap := (heap e)[rid := (heap e ! rid)\<lparr>deleted := True\<rparr>]\<rparr>)"
      by (rule buckets_ok_mark[OF bo]) simp_all
    then have "buckets_ok e'" by (rule buckets_ok_remove) (simp_all add: present(5))
    ultimately show ?thesis by (simp add: store_ok_def)
  qed
qed

text \<open>When the re-read returns the position that was read before the erase.\<close>

lemma store_inv_deleteById_same:
  assumes inv: "store_inv e" and f: "find_node i (root (idIndex e)) \<in> {None, Some g}"
    and res: "deleteById g i e = Inr (b, e')"
  shows "store_inv e'"
proof -
  have ok: "store_ok e" and il: "ids_live e" and be: "buckets_exact e"
    using inv by (simp_all add: store_inv_def)
  have io: "ids_ok e" and bo: "buckets_ok e" using ok by (simp_all add: store_ok_def)
  have ok': "store_ok e'" by (rule store_ok_deleteById[OF ok res])
  from res show ?thesis
  proof (cases rule: deleteById_cases)
    case absent
    have "store_inv e' = store_inv e" by (rule store_inv_cong) (simp_all add: absent(3))
    then show ?thesis using inv by simp
  next
    case (present rid)
    have g: "g = rid" using f present(1) by simp
    have "ids_live e'" by (rule ids_live_mark[OF io il present(1)]) (simp_all add: present(5))
    moreover have "buckets_exact e'"
      by (rule buckets_exact_mark_remove[OF bo be present(2)]) (simp_all add: present(5) g present(2))
    ultimately show ?thesis using ok' by (simp add: store_inv_def)
  qed
qed

lemma insertRecord_total:
  assumes ok: "store_ok e"
  shows "\<exists>e'. insertRecord (Passed r) e = Inr (length (heap e), e')"
proof (cases "find_node (rec_id r) (root (idIndex e))")
  case None
  then show ?thesis using insertRecord_new by blast
next
  case (Some old)
  have "ids_ok e" using ok by (simp add: store_ok_def)
  then have "old < length (heap e)" using Some by (rule ids_okD(2))
  then show ?thesis using insertRecord_update[OF Some] by blast
qed

text \<open>
  That no entry of the primary index points at a flagged record survives every
  \<open>deleteById\<close>, whatever it re-reads, and every \<open>insertRecord\<close> of an unflagged
  record.
\<close>

lemma ids_live_deleteById:
  assumes ok: "store_ok e" and il: "ids_live e" and del: "deleteById g i e = Inr (found, e')"
  shows "ids_live e'"
  using del
proof (cases rule: deleteById_cases)
  case absent
  then show ?thesis using il by (simp add: ids_live_def)
next
  case (present rid)
  have io: "ids_ok e" using ok by (simp add: store_ok_def)
  show ?thesis by (rule ids_live_mark[OF io il present(1)]) (simp_all add: present(5))
qed

lemma ids_live_insertRecord:
  assumes ok: "store_ok e" and il: "ids_live e" and nd: "\<not> deleted r"
    and res: "insertRecord (Passed r) e = Inr (p, e')"
  shows "ids_live e'"
  using res
proof (cases rule: insertRecord_cases)
  case new
  have io: "ids_ok e" using ok by (simp add: store_ok_def)
  show ?thesis by (rule ids_live_append[OF io il nd]) (simp_all add: new(3))
next
  case (update old)
  have io: "ids_ok e" using ok by (simp add: store_ok_def)
  define m where "m = e\<lparr>heap := (heap e)[old := (heap e ! old)\<lparr>deleted := True\<rparr>],
      idIndex := erase_bst (rec_id r) (snd (find_bst (rec_id r) (idIndex e)))\<rparr>"
  have im: "ids_ok m" by (rule ids_ok_mark[OF io update(1)]) (simp_all add: m_def)
  have lm: "ids_live m" by (rule ids_live_mark[OF io il update(1)]) (simp_all add: m_def)
  show ?thesis by (rule ids_live_append[OF im lm nd]) (simp_all add: update(4) m_def)
qed

section \<open>Facts about the queries\<close>

lemma collect_live_ok:
  "\<forall>rid \<in> set rids. rid < length h \<Longrightarrow>
   collect_live h rids acc = Inr (acc @ filter (\<lambda>rid. \<not> deleted (h ! rid)) rids)"
  by (induction rids arbitrary: acc) auto

lemma collect_live_Inr:
  "collect_live h rids acc = Inr res \<Longrightarrow>
   res = acc @ filter (\<lambda>rid. \<not> deleted (h ! rid)) rids \<and> (\<forall>rid \<in> set rids. rid < length h)"
proof (induction rids arbitrary: acc)
  case Nil
  then show ?case by simp
next
  case (Cons a rids)
  have a: "a < length h" using Cons.prems by (auto split: if_splits)
  have "collect_live h rids (if deleted (h ! a) then acc else acc @ [a]) = Inr res"
    using Cons.prems a by simp
  from Cons.IH[OF this] show ?case using a by auto
qed

lemma rangeById_Inr:
  assumes "rangeById lo hi e = Inr ((res, c), e')"
  shows "res = filter (\<lambda>rid. \<not> deleted (heap e ! rid)) (map snd (range_visits lo hi (root (idIndex e))))"
    and "\<forall>rid \<in> set res. rid < length (heap e)"
    and "c = range_cmps lo hi (root (idIndex e))"
    and "e' = e\<lparr>idIndex := (idIndex e)\<lparr>comparisons := range_cmps lo hi (root (idIndex e))\<rparr>\<rparr>"
  using assms collect_live_Inr[of "heap e" "map snd (range_visits lo hi (root (idIndex e)))" "[]"]
  by (auto simp: rangeById_def rangeApply_def resetMetrics_def split: sum.splits)

lemma prefixByLast_Inr:
  assumes "prefixByLast q e = Inr ((res, c), e')"
  shows "res = filter (\<lambda>rid. \<not> deleted (heap e ! rid))
           (concat (map snd (range_visits (toLower q) (toLower q @ ''{'') (root (lastIndex e)))))"
    and "\<forall>rid \<in> set res. rid < length (heap e)"
    and "c = range_cmps (toLower q) (toLower q @ ''{'') (root (lastIndex e))"
    and "e' = e\<lparr>lastIndex := (lastIndex e)\<lparr>comparisons :=
                 range_cmps (toLower q) (toLower q @ ''{'') (root (lastIndex e))\<rparr>\<rparr>"
  using assms collect_live_Inr[of "heap e"
      "concat (map snd (range_visits (toLower q) (toLower q @ ''{'') (root (lastIndex e))))" "[]"]
  by (auto simp: prefixByLast_def rangeApply_def resetMetrics_def Let_def split: sum.splits)

lemma findById_Inr:
  assumes "findById i e = Inr ((res, c), e')"
  shows "res = find_node i (root (idIndex e))"
    and "c = find_cmps i (root (idIndex e))"
    and "e' = e\<lparr>idIndex := (idIndex e)\<lparr>comparisons := find_cmps i (root (idIndex e))\<rparr>\<rparr>"
    and "\<forall>rid. res = Some rid \<longrightarrow> rid < length (heap e)"
  using assms
  by (auto simp: findById_def find_bst_def resetMetrics_def split: option.splits if_splits)

lemma findById_ok:
  assumes "\<forall>rid. find_node i (root (idIndex e)) = Some rid \<longrightarrow> rid < length (heap e)"
  shows "findById i e =
     Inr ((find_node i (root (idIndex e)), find_cmps i (root (idIndex e))),
          e\<lparr>idIndex := (idIndex e)\<lparr>comparisons := find_cmps i (root (idIndex e))\<rparr>\<rparr>)"
  using assms by (auto simp: findById_def find_bst_def resetMetrics_def split: option.splits)

lemma rangeById_ok:
  assumes "\<forall>(k, rid) \<in> set (range_visits lo hi (root (idIndex e))). rid < length (heap e)"
  shows "rangeById lo hi e =
     Inr ((filter (\<lambda>rid. \<not> deleted (heap e ! rid)) (map snd (range_visits lo hi (root (idIndex e)))),
           range_cmps lo hi (root (idIndex e))),
          e\<lparr>idIndex := (idIndex e)\<lparr>comparisons := range_cmps lo hi (root (idIndex e))\<rparr>\<rparr>)"
proof -
  have "\<forall>rid \<in> set (map snd (range_visits lo hi (root (idIndex e)))). rid < length (heap e)"
    using assms by auto
  then show ?thesis
    by (simp add: rangeById_def rangeApply_def resetMetrics_def collect_live_ok)
qed

lemma prefixByLast_ok:
  assumes "\<forall>(k, bucket) \<in> set (range_visits (toLower q) (toLower q @ ''{'') (root (lastIndex e))).
             \<forall>rid \<in> set bucket. rid < length (heap e)"
  shows "prefixByLast q e =
     Inr ((filter (\<lambda>rid. \<not> deleted (heap e ! rid))
             (concat (map snd (range_visits (toLower q) (toLower q @ ''{'') (root (lastIndex e))))),
           range_cmps (toLower q) (toLower q @ ''{'') (root (lastIndex e))),
          e\<lparr>lastIndex := (lastIndex e)\<lparr>comparisons :=
                 range_cmps (toLower q) (toLower q @ ''{'') (root (lastIndex e))\<rparr>\<rparr>)"
proof -
  have "\<forall>rid \<in> set (concat (map snd (range_visits (toLower q) (toLower q @ ''{'') (root (lastIndex e))))).
          rid < length (heap e)"
    using assms by fastforce
  then show ?thesis
    by (simp add: prefixByLast_def rangeApply_def resetMetrics_def collect_live_ok Let_def)
qed

lemma range_visits_subset: "set (range_visits lo hi t) \<subseteq> set (inorder t)"
  by (induction t) auto

lemma store_ok_findById:
  assumes ok: "store_ok e"
  shows "findById i e =
     Inr ((find_node i (root (idIndex e)), find_cmps i (root (idIndex e))),
          e\<lparr>idIndex := (idIndex e)\<lparr>comparisons := find_cmps i (root (idIndex e))\<rparr>\<rparr>)"
proof (rule findById_ok)
  have "ids_ok e" using ok by (simp add: store_ok_def)
  then show "\<forall>rid. find_node i (root (idIndex e)) = Some rid \<longrightarrow> rid < length (heap e)"
    using ids_okD(2) by blast
qed

lemma store_ok_rangeById:
  assumes ok: "store_ok e"
  shows "rangeById lo hi e =
     Inr ((filter (\<lambda>rid. \<not> deleted (heap e ! rid)) (map snd (range_visits lo hi (root (idIndex e)))),
           range_cmps lo hi (root (idIndex e))),
          e\<lparr>idIndex := (idIndex e)\<lparr>comparisons := range_cmps lo hi (root (idIndex e))\<rparr>\<rparr>)"
proof (rule rangeById_ok)
  have io: "ids_ok e" using ok by (simp add: store_ok_def)
  show "\<forall>(k, rid) \<in> set (range_visits lo hi (root (idIndex e))). rid < length (heap e)"
    using io range_visits_subset[of lo hi "root (idIndex e)"] unfolding ids_ok_def by fastforce
qed

lemma store_ok_prefixByLast:
  assumes ok: "store_ok e"
  shows "prefixByLast q e =
     Inr ((filter (\<lambda>rid. \<not> deleted (heap e ! rid))
             (concat (map snd (range_visits (toLower q) (toLower q @ ''{'') (root (lastIndex e))))),
           range_cmps (toLower q) (toLower q @ ''{'') (root (lastIndex e))),
          e\<lparr>lastIndex := (lastIndex e)\<lparr>comparisons :=
                 range_cmps (toLower q) (toLower q @ ''{'') (root (lastIndex e))\<rparr>\<rparr>)"
proof (rule prefixByLast_ok)
  have bo: "buckets_ok e" using ok by (simp add: store_ok_def)
  show "\<forall>(k, bucket) \<in> set (range_visits (toLower q) (toLower q @ ''{'') (root (lastIndex e))).
             \<forall>rid \<in> set bucket. rid < length (heap e)"
    using bo range_visits_subset[of "toLower q" "toLower q @ ''{''" "root (lastIndex e)"]
    unfolding buckets_ok_def by fastforce
qed

section \<open>The invariants hold in the example stores\<close>

lemma store_inv_after_inserts_aux:
  "store_inv e \<Longrightarrow> \<forall>r \<in> set rs. \<not> deleted r \<Longrightarrow>
   store_inv (fold (\<lambda>r e. case insertRecord (Passed r) e of Inr (pos, e') \<Rightarrow> e' | Inl err \<Rightarrow> e) rs e)"
proof (induction rs arbitrary: e)
  case Nil
  then show ?case by simp
next
  case (Cons r rs)
  have ok: "store_ok e" using Cons.prems(1) by (simp add: store_inv_def)
  obtain e' where r: "insertRecord (Passed r) e = Inr (length (heap e), e')"
    using insertRecord_total[OF ok] by blast
  have "store_inv e'" using store_inv_insertRecord[OF Cons.prems(1) _ r] Cons.prems(2) by simp
  then show ?case using Cons.IH[of e'] Cons.prems(2) r by simp
qed

lemma store_inv_empty: "store_inv empty_engine"
  by (simp add: store_inv_def store_ok_def ids_ok_def buckets_ok_def ids_live_def
      buckets_exact_def empty_engine_def empty_bst_def)

lemma store_inv_after_inserts: "\<forall>r \<in> set rs. \<not> deleted r \<Longrightarrow> store_inv (after_inserts rs)"
  unfolding after_inserts_def by (rule store_inv_after_inserts_aux[OF store_inv_empty])

lemma store_inv_demo: "store_inv demo"
  unfolding demo_def by (rule store_inv_after_inserts) (simp add: mk_def)

lemma store_inv_smiths: "store_inv smiths"
  unfolding smiths_def by (rule store_inv_after_inserts) (simp add: mk_def)

lemma store_inv_single: "store_inv single"
  unfolding single_def by (rule store_inv_after_inserts) (simp add: mk_def)

lemma store_inv_munoz: "store_inv munoz"
  unfolding munoz_def by (rule store_inv_after_inserts) (simp add: mk_def)

lemma store_inv_ok: "store_inv e \<Longrightarrow> store_ok e"
  by (simp add: store_inv_def)

section \<open>Facts about runs\<close>

lemma query_state:
  shows findById_state: "findById i e = Inr (out, e1) \<Longrightarrow>
      heap e1 = heap e \<and> root (idIndex e1) = root (idIndex e) \<and> lastIndex e1 = lastIndex e"
    and rangeById_state: "rangeById lo hi e = Inr (out', e2) \<Longrightarrow>
      heap e2 = heap e \<and> root (idIndex e2) = root (idIndex e) \<and> lastIndex e2 = lastIndex e"
    and prefixByLast_state: "prefixByLast q e = Inr (out', e3) \<Longrightarrow>
      heap e3 = heap e \<and> idIndex e3 = idIndex e \<and> root (lastIndex e3) = root (lastIndex e)"
proof -
  show "findById i e = Inr (out, e1) \<Longrightarrow>
      heap e1 = heap e \<and> root (idIndex e1) = root (idIndex e) \<and> lastIndex e1 = lastIndex e"
    using findById_Inr(3)[of i e "fst out" "snd out" e1] by simp
  show "rangeById lo hi e = Inr (out', e2) \<Longrightarrow>
      heap e2 = heap e \<and> root (idIndex e2) = root (idIndex e) \<and> lastIndex e2 = lastIndex e"
    using rangeById_Inr(4)[of lo hi e "fst out'" "snd out'" e2] by simp
  show "prefixByLast q e = Inr (out', e3) \<Longrightarrow>
      heap e3 = heap e \<and> idIndex e3 = idIndex e \<and> root (lastIndex e3) = root (lastIndex e)"
    using prefixByLast_Inr(4)[of q e "fst out'" "snd out'" e3] by simp
qed

lemma store_ok_evolves:
  "evolves_avoiding S e e' \<Longrightarrow> store_ok e \<Longrightarrow> store_ok e'"
proof (induction rule: evolves_avoiding.induct)
  case (ev_refl e)
  then show ?case by simp
next
  case (ev_insert e e1 recIn pos e2)
  then show ?case using store_ok_insertRecord by blast
next
  case (ev_delete e e1 reread i ok e2)
  then show ?case using store_ok_deleteById by blast
next
  case (ev_find e e1 i out e2)
  then have "store_ok e1" by simp
  moreover have "store_ok e2 = store_ok e1"
    using findById_state[OF ev_find.hyps(2)] by (intro store_ok_cong) simp_all
  ultimately show ?case by simp
next
  case (ev_range e e1 lo hi out' e2)
  then have "store_ok e1" by simp
  moreover have "store_ok e2 = store_ok e1"
    using rangeById_state[OF ev_range.hyps(2)] by (intro store_ok_cong) simp_all
  ultimately show ?case by simp
next
  case (ev_prefix e e1 pfx out' e2)
  then have "store_ok e1" by simp
  moreover have "store_ok e2 = store_ok e1"
    using prefixByLast_state[OF ev_prefix.hyps(2)] by (intro store_ok_cong) simp_all
  ultimately show ?case by simp
qed

text \<open>Every store that the operations produce from the empty store satisfies \<open>store_ok\<close>.\<close>

lemma store_ok_reachable: "evolves empty_engine e \<Longrightarrow> store_ok e"
  unfolding evolves_def using store_ok_evolves store_inv_ok[OF store_inv_empty] by blast

lemma flags_kept_refl: "flags_kept e e"
  by (simp add: flags_kept_def)

lemma flags_kept_trans: "flags_kept e e1 \<Longrightarrow> flags_kept e1 e2 \<Longrightarrow> flags_kept e e2"
  unfolding flags_kept_def by (meson le_trans less_le_trans)

lemma flags_kept_same: "heap e' = heap e \<Longrightarrow> flags_kept e e'"
  by (simp add: flags_kept_def)

lemma flags_kept_insertRecord:
  assumes "insertRecord recIn e = Inr (p, e')"
  shows "flags_kept e e'"
  using insertRecord_refD(2)[OF assms]
proof (cases rule: insertRecord_cases)
  case new
  then show ?thesis by (simp add: flags_kept_def nth_append)
next
  case (update old)
  then show ?thesis by (simp add: flags_kept_def nth_append)
qed

lemma flags_kept_deleteById:
  assumes "deleteById g i e = Inr (ok, e')"
  shows "flags_kept e e'"
  using assms
proof (cases rule: deleteById_cases)
  case absent
  then show ?thesis by (simp add: flags_kept_def)
next
  case (present rid)
  then show ?thesis by (simp add: flags_kept_def)
qed

lemma flags_kept_evolves: "evolves_avoiding S e e' \<Longrightarrow> flags_kept e e'"
proof (induction rule: evolves_avoiding.induct)
  case (ev_refl e)
  then show ?case by (rule flags_kept_refl)
next
  case (ev_insert e e1 recIn pos e2)
  then show ?case using flags_kept_trans flags_kept_insertRecord by blast
next
  case (ev_delete e e1 reread i ok e2)
  then show ?case using flags_kept_trans flags_kept_deleteById by blast
next
  case (ev_find e e1 i out e2)
  then show ?case using flags_kept_trans[OF _ flags_kept_same] findById_state by blast
next
  case (ev_range e e1 lo hi out' e2)
  then show ?case using flags_kept_trans[OF _ flags_kept_same] rangeById_state by blast
next
  case (ev_prefix e e1 pfx out' e2)
  then show ?case using flags_kept_trans[OF _ flags_kept_same] prefixByLast_state by blast
qed

lemma absent_kept:
  "evolves_avoiding S e e' \<Longrightarrow> i \<in> S \<Longrightarrow> store_ok e \<Longrightarrow>
   find_node i (root (idIndex e)) = None \<Longrightarrow> find_node i (root (idIndex e')) = None"
proof (induction rule: evolves_avoiding.induct)
  case (ev_refl e)
  then show ?case by simp
next
  case (ev_insert e e1 recIn pos e2)
  have n: "find_node i (root (idIndex e1)) = None" using ev_insert by simp
  have ok1: "store_ok e1" using store_ok_evolves[OF ev_insert.hyps(1)] ev_insert.prems by simp
  then have b: "bst (root (idIndex e1))" using ids_okD(1) by (auto simp: store_ok_def)
  have "i \<noteq> rec_id (deref recIn (heap e1))"
    using ev_insert.hyps(2) ev_insert.prems(1) by auto
  then have ne: "i \<noteq> rec_id (stored_copy recIn e1)"
    using stored_copy_fields[OF insertRecord_refD(1)[OF ev_insert.hyps(3)]] by simp
  from insertRecord_refD(2)[OF ev_insert.hyps(3)] show ?case
  proof (cases rule: insertRecord_cases)
    case new
    then show ?thesis using n ne by (simp add: find_insert_node)
  next
    case (update old)
    then show ?thesis using n ne by (simp add: find_insert_node find_erase_node[OF b])
  qed
next
  case (ev_delete e e1 reread j ok e2)
  have n: "find_node i (root (idIndex e1)) = None" using ev_delete by simp
  have ok1: "store_ok e1" using store_ok_evolves[OF ev_delete.hyps(1)] ev_delete.prems by simp
  then have b: "bst (root (idIndex e1))" using ids_okD(1) by (auto simp: store_ok_def)
  from ev_delete.hyps(2) show ?case
  proof (cases rule: deleteById_cases)
    case absent
    then show ?thesis using n by simp
  next
    case (present rid)
    then show ?thesis using n by (simp add: find_erase_node[OF b])
  qed
next
  case (ev_find e e1 j out e2)
  then show ?case using findById_state[OF ev_find.hyps(2)] by simp
next
  case (ev_range e e1 lo hi out' e2)
  then show ?case using rangeById_state[OF ev_range.hyps(2)] by simp
next
  case (ev_prefix e e1 pfx out' e2)
  then show ?case using prefixByLast_state[OF ev_prefix.hyps(2)] by simp
qed

section \<open>Facts about the key range of a prefix\<close>

lemma range_has_prefix:
  "lo \<le> n \<Longrightarrow> n \<le> lo @ s \<Longrightarrow> prefix lo n" for lo :: string
proof (induction lo arbitrary: n)
  case Nil
  then show ?case by simp
next
  case (Cons a l)
  then obtain b m where n: "n = b # m" by (cases n) auto
  have "a = b \<and> l \<le> m \<and> m \<le> l @ s" using Cons.prems unfolding n by auto
  then show ?case using Cons.IH[of m] n by simp
qed

lemma prefix_lower: "prefix lo n \<Longrightarrow> lo \<le> n" for lo :: string
proof (induction lo arbitrary: n)
  case Nil
  then show ?case by simp
next
  case (Cons a l)
  then obtain m where n: "n = a # m" and p: "prefix l m" by (cases n) auto
  then show ?case using Cons.IH[of m] by simp
qed

lemma append_le_cancel: "(lo @ t \<le> lo @ s) = (t \<le> s)" for lo :: string
  by (induction lo) auto

lemma below_brace: "\<forall>c \<in> set t. c < CHR ''{'' \<Longrightarrow> t \<le> ''{''"
  by (cases t) auto

lemma prefix_in_range:
  assumes "prefix lo n" and "\<forall>c \<in> set n. c < CHR ''{''"
  shows "lo \<le> n \<and> n \<le> lo @ ''{''"
proof -
  obtain t where n: "n = lo @ t" using assms(1) by (auto simp: prefix_def)
  have "t \<le> ''{''" using assms(2) n by (intro below_brace) simp
  then have "lo @ t \<le> lo @ ''{''" by (simp only: append_le_cancel)
  then show ?thesis using prefix_lower[OF assms(1)] n by simp
qed

section \<open>The position returned by insertRecord\<close>

lemma single_value:
  "single = \<lparr>heap = [mk 1 ''Smith''],
     idIndex = \<lparr>root = Node Null 1 0 Null, comparisons = 0\<rparr>,
     lastIndex = \<lparr>root = Node Null ''smith'' [0] Null, comparisons = 0\<rparr>\<rparr>"
  by code_simp

lemma insertRecord_copy:
  assumes "insertRecord recIn e = Inr (pos, e')"
  shows "heap e' ! pos = stored_copy recIn e \<and> deref recIn (heap e') = stored_copy recIn e"
proof -
  note v = insertRecord_refD(1)[OF assms]
  from insertRecord_refD(2)[OF assms] show ?thesis
  proof (cases rule: insertRecord_cases)
    case new
    have "deref recIn (heap e') = stored_copy recIn e"
      using v new(1) stored_copy_fields[OF v]
      by (cases recIn) (simp_all add: new(3) stored_copy_def nth_append)
    then show ?thesis by (simp add: new(2,3))
  next
    case (update old)
    have "deref recIn (heap e') = stored_copy recIn e"
      using v update(1) stored_copy_fields[OF v]
      by (cases recIn) (simp_all add: update(4) stored_copy_def nth_append)
    then show ?thesis by (simp add: update(3,4) nth_append)
  qed
qed

text \<open>
  C1 (as amended). Whenever \<open>insertRecord\<close> completes, on the new-insert path and on the
  update path alike, the position it returns is the heap size before the append, and that
  is the position at which the new record now lies and under which the primary index now
  files its id. On the update path the old occupant lies at a smaller position, which is
  now flagged deleted: the returned position is not the old occupant's. (The new record
  equals the argument as it stands after the call: for a record passed from outside the heap,
  \<open>deref (Passed r) h = r\<close>, the record \<open>r\<close> itself.)
\<close>

theorem insertRecord_returns_new_position:
  assumes "insertRecord recIn e = Inr (pos, e')"
  shows "pos = length (heap e) \<and> length (heap e') = Suc (length (heap e)) \<and>
         heap e' ! pos = deref recIn (heap e') \<and>
         find_node (rec_id (deref recIn (heap e))) (root (idIndex e')) = Some pos \<and>
         (\<forall>old. find_node (rec_id (deref recIn (heap e))) (root (idIndex e)) = Some old \<longrightarrow>
                old < pos \<and> pos \<noteq> old \<and> deleted (heap e' ! old))"
proof -
  note v = insertRecord_refD(1)[OF assms]
  have k: "rec_id (stored_copy recIn e) = rec_id (deref recIn (heap e))"
    using stored_copy_fields[OF v] by simp
  have c: "heap e' ! pos = deref recIn (heap e')" using insertRecord_copy[OF assms] by simp
  from insertRecord_refD(2)[OF assms]
  have m: "pos = length (heap e) \<and> length (heap e') = Suc (length (heap e)) \<and>
         find_node (rec_id (stored_copy recIn e)) (root (idIndex e')) = Some pos \<and>
         (\<forall>old. find_node (rec_id (stored_copy recIn e)) (root (idIndex e)) = Some old \<longrightarrow>
                old < pos \<and> pos \<noteq> old \<and> deleted (heap e' ! old))"
  proof (cases rule: insertRecord_cases)
    case new
    then show ?thesis by (simp add: find_insert_node)
  next
    case (update old)
    then show ?thesis by (simp add: find_insert_node nth_append)
  qed
  show ?thesis using m[unfolded k] c by blast
qed

theorem insertRecord_returns_new_position_witness:
  "(\<exists>pos e'. insertRecord (Passed (mk 1 ''Jones'')) single = Inr (pos, e') \<and>
     find_node (rec_id (mk 1 ''Jones'')) (root (idIndex single)) = Some 0 \<and>
     pos = 1 \<and> heap e' ! pos = mk 1 ''Jones'' \<and> deleted (heap e' ! 0)) \<and>
   (\<exists>pos e'. insertRecord (Held 0) single = Inr (pos, e') \<and>
     find_node (rec_id (heap single ! 0)) (root (idIndex single)) = Some 0 \<and>
     pos = 1 \<and> heap e' ! pos = heap e' ! 0 \<and> deleted (heap e' ! 0))"
proof -
  have f: "find_node (rec_id (mk 1 ''Jones'')) (root (idIndex single)) = Some 0"
    by (simp add: single_value mk_def)
  have "0 < length (heap single)" by (simp add: single_value)
  from insertRecord_update[OF f this]
  obtain e' where r: "insertRecord (Passed (mk 1 ''Jones'')) single = Inr (length (heap single), e')"
    by blast
  have l: "length (heap single) = 1" by (simp add: single_value)
  have a: "\<exists>pos e'. insertRecord (Passed (mk 1 ''Jones'')) single = Inr (pos, e') \<and>
     find_node (rec_id (mk 1 ''Jones'')) (root (idIndex single)) = Some 0 \<and>
     pos = 1 \<and> heap e' ! pos = mk 1 ''Jones'' \<and> deleted (heap e' ! 0)"
    using insertRecord_returns_new_position[OF r] r f l by auto
  have f2: "find_node (rec_id (heap single ! 0)) (root (idIndex single)) = Some 0"
    by (simp add: single_value mk_def)
  have "map_sum id fst (insertRecord (Held 0) single) = Inr 1" by code_simp
  then obtain e2 where r2: "insertRecord (Held 0) single = Inr (1, e2)"
    by (cases "insertRecord (Held 0) single") auto
  have b: "\<exists>pos e'. insertRecord (Held 0) single = Inr (pos, e') \<and>
     find_node (rec_id (heap single ! 0)) (root (idIndex single)) = Some 0 \<and>
     pos = 1 \<and> heap e' ! pos = heap e' ! 0 \<and> deleted (heap e' ! 0)"
    using insertRecord_returns_new_position[OF r2] r2 f2 by auto
  show ?thesis using a b by blast
qed

text \<open>
  C1 as stated fails: updating id 1, held at position 0, returns position 1, which is where
  the new record lies, not the old occupant's position 0.
\<close>

theorem insertRecord_update_counterexample:
  "find_node 1 (root (idIndex single)) = Some 0 \<and>
   map_sum id fst (insertRecord (Passed (mk 1 ''Jones'')) single) = Inr 1 \<and>
   map_sum id (\<lambda>(pos, e'). heap e' ! 1) (insertRecord (Passed (mk 1 ''Jones'')) single)
     = Inr (mk 1 ''Jones'')"
  by code_simp

section \<open>Range queries by id\<close>

lemma ids_of_filtered:
  "\<forall>(k, rid) \<in> set vs. rec_id (h ! rid) = k \<Longrightarrow>
   map (\<lambda>rid. rec_id (h ! rid)) (filter P (map snd vs)) = map fst (filter (\<lambda>(k, rid). P rid) vs)"
  by (induction vs) auto

lemma sorted_keys_filter:
  "sorted_wrt (<) (map fst vs) \<Longrightarrow> sorted_wrt (<) (map fst (filter Q vs))"
  by (induction vs) auto

lemma sorted_ids_distinct:
  "sorted_wrt (<) (map f xs) \<Longrightarrow> distinct xs" for f :: "'a \<Rightarrow> int"
  by (induction xs) auto

text \<open>
  C3. In every store that satisfies \<open>store_ok\<close> (every store the operations can produce),
  \<open>rangeById lo hi\<close> completes and returns exactly the positions of the records whose flag
  is clear and whose id lies in the inclusive range, each position once, in strictly
  ascending order of id.
\<close>

theorem rangeById_exact:
  assumes ok: "store_ok e"
  shows "\<exists>res c e'. rangeById lo hi e = Inr ((res, c), e') \<and>
           set res = {rid. live e rid \<and> lo \<le> rec_id (heap e ! rid) \<and> rec_id (heap e ! rid) \<le> hi} \<and>
           distinct res \<and>
           sorted_wrt (<) (map (\<lambda>rid. rec_id (heap e ! rid)) res)"
proof -
  let ?t = "root (idIndex e)"
  let ?vs = "range_visits lo hi ?t"
  let ?res = "filter (\<lambda>rid. \<not> deleted (heap e ! rid)) (map snd ?vs)"
  have io: "ids_ok e" using ok by (simp add: store_ok_def)
  note i = ids_okD[OF io]
  have vs: "?vs = filter (\<lambda>(k, v). lo \<le> k \<and> k \<le> hi) (inorder ?t)"
    by (rule range_visits_filter[OF i(1)])
  have mem: "\<And>k rid. ((k, rid) \<in> set ?vs) = (find_node k ?t = Some rid \<and> lo \<le> k \<and> k \<le> hi)"
    by (auto simp: vs set_inorder[OF i(1)])
  have run: "rangeById lo hi e = Inr ((?res, range_cmps lo hi ?t),
      e\<lparr>idIndex := (idIndex e)\<lparr>comparisons := range_cmps lo hi ?t\<rparr>\<rparr>)"
    by (rule store_ok_rangeById[OF ok])
  have set_eq: "set ?res =
      {rid. live e rid \<and> lo \<le> rec_id (heap e ! rid) \<and> rec_id (heap e ! rid) \<le> hi}"
  proof (intro set_eqI iffI)
    fix rid assume "rid \<in> set ?res"
    then obtain k where "(k, rid) \<in> set ?vs" and nd: "\<not> deleted (heap e ! rid)" by auto
    then have f: "find_node k ?t = Some rid" and r: "lo \<le> k" "k \<le> hi" by (simp_all add: mem)
    show "rid \<in> {rid. live e rid \<and> lo \<le> rec_id (heap e ! rid) \<and> rec_id (heap e ! rid) \<le> hi}"
      using i(2)[OF f] i(3)[OF f] nd r by (simp add: live_def)
  next
    fix rid
    assume "rid \<in> {rid. live e rid \<and> lo \<le> rec_id (heap e ! rid) \<and> rec_id (heap e ! rid) \<le> hi}"
    then have l: "rid < length (heap e)" and nd: "\<not> deleted (heap e ! rid)"
      and r: "lo \<le> rec_id (heap e ! rid)" "rec_id (heap e ! rid) \<le> hi"
      by (simp_all add: live_def)
    have "(rec_id (heap e ! rid), rid) \<in> set ?vs" using i(4)[OF l nd] r by (simp add: mem)
    then have "rid \<in> snd ` set ?vs" by force
    then show "rid \<in> set ?res" using nd by simp
  qed
  have keyed: "\<forall>(k, rid) \<in> set ?vs. rec_id (heap e ! rid) = k"
    using i(3) by (auto simp: mem)
  have "sorted_wrt (<) (map fst ?vs)"
    unfolding vs by (rule sorted_keys_filter[OF sorted_inorder[OF i(1)]])
  then have "sorted_wrt (<) (map fst (filter (\<lambda>(k, rid). \<not> deleted (heap e ! rid)) ?vs))"
    by (rule sorted_keys_filter)
  then have sorted: "sorted_wrt (<) (map (\<lambda>rid. rec_id (heap e ! rid)) ?res)"
    using ids_of_filtered[OF keyed, of "\<lambda>rid. \<not> deleted (heap e ! rid)"] by simp
  have "distinct ?res" using sorted by (rule sorted_ids_distinct)
  then show ?thesis using run set_eq sorted by blast
qed

lemma demo_range: "map_sum id (fst \<circ> fst) (rangeById 1 10 demo) = Inr [3, 1, 0]"
  by code_simp

lemma demo_heap: "heap demo = [mk 10 ''Lee'', mk 5 ''Kim'', mk 20 ''Kim'', mk 1 ''Park'']"
  by code_simp

theorem rangeById_exact_witness:
  "store_ok demo \<and>
   (\<exists>res c e'. rangeById 1 10 demo = Inr ((res, c), e') \<and> res = [3, 1, 0] \<and>
      set res = {rid. live demo rid \<and> 1 \<le> rec_id (heap demo ! rid) \<and> rec_id (heap demo ! rid) \<le> 10} \<and>
      distinct res \<and>
      map (\<lambda>rid. rec_id (heap demo ! rid)) res = [1, 5, 10])"
proof -
  have ok: "store_ok demo" by (rule store_inv_ok[OF store_inv_demo])
  from rangeById_exact[OF ok, of 1 10] obtain res c e'
    where r: "rangeById 1 10 demo = Inr ((res, c), e')"
      and s: "set res = {rid. live demo rid \<and> 1 \<le> rec_id (heap demo ! rid) \<and> rec_id (heap demo ! rid) \<le> 10}"
      and d: "distinct res"
    by blast
  have v: "res = [3, 1, 0]" using demo_range r by simp
  have m: "map (\<lambda>rid. rec_id (heap demo ! rid)) res = [1, 5, 10]"
    by (simp add: v demo_heap mk_def)
  show ?thesis
    by (rule conjI[OF ok], rule exI[of _ res], rule exI[of _ c], rule exI[of _ e'], intro conjI)
       (fact r v s d m)+
qed

section \<open>Comparison counts\<close>

text \<open>
  C9. Each of the three queries resets the counter of the index it uses before it searches,
  so the count it reports is the count of that one search from the root, whatever the
  counter held before: it does not depend on the incoming counter, and a \<open>findById\<close> that
  follows another \<open>findById\<close> reports the count of its own search alone.
\<close>

theorem query_counts_are_per_call:
  "(findById i e = Inr ((out, c), e') \<longrightarrow>
      c = find_cmps i (root (idIndex e)) \<and> comparisons (idIndex e') = c) \<and>
   (rangeById lo hi e = Inr ((res, c2), e2) \<longrightarrow>
      c2 = range_cmps lo hi (root (idIndex e)) \<and> comparisons (idIndex e2) = c2) \<and>
   (prefixByLast q e = Inr ((res3, c3), e3) \<longrightarrow>
      c3 = range_cmps (toLower q) (toLower q @ ''{'') (root (lastIndex e)) \<and>
      comparisons (lastIndex e3) = c3) \<and>
   (findById i e = Inr ((out, c), e') \<and> findById j e' = Inr ((out4, c4), e4) \<longrightarrow>
      c4 = find_cmps j (root (idIndex e)))"
proof (intro conjI impI)
  assume a: "findById i e = Inr ((out, c), e')"
  show "c = find_cmps i (root (idIndex e))" using findById_Inr(2)[OF a] .
  show "comparisons (idIndex e') = c" using findById_Inr(2,3)[OF a] by simp
next
  assume a: "rangeById lo hi e = Inr ((res, c2), e2)"
  show "c2 = range_cmps lo hi (root (idIndex e))" using rangeById_Inr(3)[OF a] .
  show "comparisons (idIndex e2) = c2" using rangeById_Inr(3,4)[OF a] by simp
next
  assume a: "prefixByLast q e = Inr ((res3, c3), e3)"
  show "c3 = range_cmps (toLower q) (toLower q @ ''{'') (root (lastIndex e))"
    using prefixByLast_Inr(3)[OF a] .
  show "comparisons (lastIndex e3) = c3" using prefixByLast_Inr(3,4)[OF a] by simp
next
  assume a: "findById i e = Inr ((out, c), e') \<and> findById j e' = Inr ((out4, c4), e4)"
  then have a1: "findById i e = Inr ((out, c), e')" and a2: "findById j e' = Inr ((out4, c4), e4)"
    by simp_all
  have "root (idIndex e') = root (idIndex e)" using findById_Inr(3)[OF a1] by simp
  then show "c4 = find_cmps j (root (idIndex e))" using findById_Inr(2)[OF a2] by simp
qed

lemma demo_find_20: "findById 20 demo =
   Inr ((Some 2, 2), demo\<lparr>idIndex := (idIndex demo)\<lparr>comparisons := 2\<rparr>\<rparr>)"
  by code_simp

lemma demo_find_1_after: "findById 1 (demo\<lparr>idIndex := (idIndex demo)\<lparr>comparisons := 2\<rparr>\<rparr>) =
   Inr ((Some 3, 3), demo\<lparr>idIndex := (idIndex demo)\<lparr>comparisons := 3\<rparr>\<rparr>)"
  by code_simp

lemma demo_range_full: "rangeById 1 10 demo =
   Inr (([3, 1, 0], 12), demo\<lparr>idIndex := (idIndex demo)\<lparr>comparisons := 12\<rparr>\<rparr>)"
  by code_simp

lemma demo_prefix_full: "prefixByLast ''ki'' demo =
   Inr (([1, 2], 8), demo\<lparr>lastIndex := (lastIndex demo)\<lparr>comparisons := 8\<rparr>\<rparr>)"
  by code_simp

lemma demo_counters: "comparisons (idIndex demo) = 4 \<and> comparisons (lastIndex demo) = 4"
  by code_simp

theorem query_counts_are_per_call_witness:
  "comparisons (idIndex demo) = 4 \<and>
   findById 20 demo = Inr ((Some 2, 2), demo\<lparr>idIndex := (idIndex demo)\<lparr>comparisons := 2\<rparr>\<rparr>) \<and>
   findById 1 (demo\<lparr>idIndex := (idIndex demo)\<lparr>comparisons := 2\<rparr>\<rparr>) =
     Inr ((Some 3, 3), demo\<lparr>idIndex := (idIndex demo)\<lparr>comparisons := 3\<rparr>\<rparr>) \<and>
   rangeById 1 10 demo =
     Inr (([3, 1, 0], 12), demo\<lparr>idIndex := (idIndex demo)\<lparr>comparisons := 12\<rparr>\<rparr>) \<and>
   prefixByLast ''ki'' demo =
     Inr (([1, 2], 8), demo\<lparr>lastIndex := (lastIndex demo)\<lparr>comparisons := 8\<rparr>\<rparr>) \<and>
   find_cmps 20 (root (idIndex demo)) = 2 \<and>
   find_cmps 1 (root (idIndex demo)) = 3 \<and>
   range_cmps 1 10 (root (idIndex demo)) = 12 \<and>
   range_cmps (toLower ''ki'') (toLower ''ki'' @ ''{'') (root (lastIndex demo)) = 8"
  using query_counts_are_per_call[of 20 demo "Some 2" 2
      "demo\<lparr>idIndex := (idIndex demo)\<lparr>comparisons := 2\<rparr>\<rparr>"
      1 10 "[3, 1, 0]" 12 "demo\<lparr>idIndex := (idIndex demo)\<lparr>comparisons := 12\<rparr>\<rparr>"
      "''ki''" "[1, 2]" 8 "demo\<lparr>lastIndex := (lastIndex demo)\<lparr>comparisons := 8\<rparr>\<rparr>"
      1 "Some 3" 3 "demo\<lparr>idIndex := (idIndex demo)\<lparr>comparisons := 3\<rparr>\<rparr>"]
    demo_find_20 demo_find_1_after demo_range_full demo_prefix_full demo_counters
  by simp

section \<open>Point lookup\<close>

text \<open>
  C8. \<open>findById\<close> answers with a null pointer, not an error, when the lookup finds
  nothing; it answers with the position the index holds whenever that position lies in the
  heap, without looking at the record's deleted flag; and in a store that satisfies
  \<open>store_ok\<close> and whose primary index points at unflagged records only (both are kept by
  every \<open>deleteById\<close>, whatever it re-reads, and by every \<open>insertRecord\<close> of an
  unflagged record passed from outside the heap) it completes,
  answers non-null exactly when the primary index contains an entry for the id, and the
  record it points to has the id and a clear deleted flag.
\<close>

theorem findById_result:
  "(find_node i (root (idIndex e)) = None \<longrightarrow>
      (\<exists>c e'. findById i e = Inr ((None, c), e'))) \<and>
   (\<forall>rid. find_node i (root (idIndex e)) = Some rid \<and> rid < length (heap e) \<longrightarrow>
      (\<exists>c e'. findById i e = Inr ((Some rid, c), e'))) \<and>
   (store_ok e \<and> ids_live e \<longrightarrow>
      (\<exists>out c e'. findById i e = Inr ((out, c), e') \<and>
         (out \<noteq> None) = (i \<in> keys (root (idIndex e))) \<and>
         (\<forall>rid. out = Some rid \<longrightarrow>
            rid < length (heap e) \<and> rec_id (heap e ! rid) = i \<and> \<not> deleted (heap e ! rid))))"
proof (intro conjI allI impI)
  assume "find_node i (root (idIndex e)) = None"
  then show "\<exists>c e'. findById i e = Inr ((None, c), e')"
    using findById_ok[of i e] by simp
next
  fix rid assume "find_node i (root (idIndex e)) = Some rid \<and> rid < length (heap e)"
  then show "\<exists>c e'. findById i e = Inr ((Some rid, c), e')"
    using findById_ok[of i e] by simp
next
  assume inv: "store_ok e \<and> ids_live e"
  then have ok: "store_ok e" and il: "ids_live e" by simp_all
  have io: "ids_ok e" using ok by (simp add: store_ok_def)
  note i = ids_okD[OF io]
  let ?out = "find_node i (root (idIndex e))"
  have run: "findById i e = Inr ((?out, find_cmps i (root (idIndex e))),
      e\<lparr>idIndex := (idIndex e)\<lparr>comparisons := find_cmps i (root (idIndex e))\<rparr>\<rparr>)"
    by (rule store_ok_findById[OF ok])
  have k: "(?out \<noteq> None) = (i \<in> keys (root (idIndex e)))"
    using keys_find_iff[OF i(1)] by simp
  have l: "\<forall>rid. ?out = Some rid \<longrightarrow>
            rid < length (heap e) \<and> rec_id (heap e ! rid) = i \<and> \<not> deleted (heap e ! rid)"
    using i(2,3) il unfolding ids_live_iff[OF i(1)] by blast
  show "\<exists>out c e'. findById i e = Inr ((out, c), e') \<and>
         (out \<noteq> None) = (i \<in> keys (root (idIndex e))) \<and>
         (\<forall>rid. out = Some rid \<longrightarrow>
            rid < length (heap e) \<and> rec_id (heap e ! rid) = i \<and> \<not> deleted (heap e ! rid))"
    using run k l by blast
qed

lemma single_heap: "heap single = [mk 1 ''Smith'']" and single_ids: "root (idIndex single) = Node Null 1 0 Null"
  by (simp_all add: single_value)

theorem findById_result_witness:
  "find_node 2 (root (idIndex single)) = None \<and>
   (\<exists>c e'. findById 2 single = Inr ((None, c), e')) \<and>
   find_node 1 (root (idIndex (single\<lparr>heap := [(mk 1 ''Smith'')\<lparr>deleted := True\<rparr>]\<rparr>))) = Some 0 \<and>
   deleted (heap (single\<lparr>heap := [(mk 1 ''Smith'')\<lparr>deleted := True\<rparr>]\<rparr>) ! 0) \<and>
   (\<exists>c e'. findById 1 (single\<lparr>heap := [(mk 1 ''Smith'')\<lparr>deleted := True\<rparr>]\<rparr>) = Inr ((Some 0, c), e')) \<and>
   store_ok single \<and> ids_live single \<and>
   (\<exists>out c e'. findById 1 single = Inr ((out, c), e') \<and> out = Some 0 \<and>
      (out \<noteq> None) = (1 \<in> keys (root (idIndex single))) \<and>
      rec_id (heap single ! 0) = 1 \<and> \<not> deleted (heap single ! 0))"
proof -
  have a: "find_node 2 (root (idIndex single)) = None" by (simp add: single_ids)
  have b: "find_node 1 (root (idIndex (single\<lparr>heap := [(mk 1 ''Smith'')\<lparr>deleted := True\<rparr>]\<rparr>))) = Some 0"
    by (simp add: single_ids)
  have b': "deleted (heap (single\<lparr>heap := [(mk 1 ''Smith'')\<lparr>deleted := True\<rparr>]\<rparr>) ! 0)" by simp
  have c: "find_node 1 (root (idIndex single)) = Some 0" by (simp add: single_ids)
  note t1 = findById_result[of 2 single]
  note t2 = findById_result[of 1 "single\<lparr>heap := [(mk 1 ''Smith'')\<lparr>deleted := True\<rparr>]\<rparr>"]
  note t3 = findById_result[of 1 single]
  have sl: "store_ok single \<and> ids_live single"
    using store_inv_single by (simp add: store_inv_def)
  have r1: "\<exists>c e'. findById 2 single = Inr ((None, c), e')" using t1 a by blast
  have r2: "\<exists>c e'. findById 1 (single\<lparr>heap := [(mk 1 ''Smith'')\<lparr>deleted := True\<rparr>]\<rparr>) = Inr ((Some 0, c), e')"
    using t2 b by simp
  obtain out c' e' where r3: "findById 1 single = Inr ((out, c'), e')"
      and k: "(out \<noteq> None) = (1 \<in> keys (root (idIndex single)))"
      and l: "\<forall>rid. out = Some rid \<longrightarrow>
            rid < length (heap single) \<and> rec_id (heap single ! rid) = 1 \<and> \<not> deleted (heap single ! rid)"
    using t3 sl by blast
  have o: "out = Some 0" using findById_Inr(1)[OF r3] c by simp
  have r3': "\<exists>out c e'. findById 1 single = Inr ((out, c), e') \<and> out = Some 0 \<and>
      (out \<noteq> None) = (1 \<in> keys (root (idIndex single))) \<and>
      rec_id (heap single ! 0) = 1 \<and> \<not> deleted (heap single ! 0)"
    using r3 o k l by blast
  show ?thesis using a r1 b b' r2 sl r3' by blast
qed

section \<open>Insert, then find\<close>

lemma range_result_unflagged:
  assumes "rangeById lo hi e = Inr ((res, c), e')" and "x \<in> set res"
  shows "x < length (heap e) \<and> \<not> deleted (heap e ! x)"
  using rangeById_Inr(1,2)[OF assms(1)] assms(2) by auto

lemma prefix_result_unflagged:
  assumes "prefixByLast q e = Inr ((res, c), e')" and "x \<in> set res"
  shows "x < length (heap e) \<and> \<not> deleted (heap e ! x)"
  using prefixByLast_Inr(1,2)[OF assms(1)] assms(2) by auto

lemma insertRecord_effect:
  assumes "insertRecord (Passed r) e = Inr (pos, e1)"
  shows "length (heap e1) = Suc (length (heap e)) \<and> heap e1 ! pos = r \<and> pos = length (heap e) \<and>
         find_node (rec_id r) (root (idIndex e1)) = Some pos \<and>
         (\<forall>old. find_node (rec_id r) (root (idIndex e)) = Some old \<longrightarrow> deleted (heap e1 ! old))"
  using assms
proof (cases rule: insertRecord_cases)
  case new
  then show ?thesis by (simp add: find_insert_node)
next
  case (update old)
  then show ?thesis by (simp add: find_insert_node nth_append)
qed

text \<open>
  For a record passed from outside the heap, insert-then-find holds. In every store that
  satisfies \<open>store_ok\<close>, \<open>insertRecord\<close> of such a record \<open>r\<close> completes; afterwards
  \<open>findById (rec_id r)\<close> returns a pointer to a record equal to \<open>r\<close>; and when a record
  with a clear flag held the id before, at position \<open>old\<close>, then in every state reached
  from the result by further operations no \<open>rangeById\<close> and no \<open>prefixByLast\<close> returns
  \<open>old\<close>.
\<close>

lemma insert_then_find_passed:
  assumes ok: "store_ok e"
  shows "\<exists>pos e1. insertRecord (Passed r) e = Inr (pos, e1) \<and>
           (\<exists>c e2. findById (rec_id r) e1 = Inr ((Some pos, c), e2)) \<and>
           heap e1 ! pos = r \<and>
           (\<forall>old. live e old \<and> rec_id (heap e ! old) = rec_id r \<longrightarrow>
              (\<forall>e2. evolves e1 e2 \<longrightarrow>
                 (\<forall>lo hi res c e3. rangeById lo hi e2 = Inr ((res, c), e3) \<longrightarrow> old \<notin> set res) \<and>
                 (\<forall>q res c e3. prefixByLast q e2 = Inr ((res, c), e3) \<longrightarrow> old \<notin> set res)))"
proof -
  obtain e1 where run: "insertRecord (Passed r) e = Inr (length (heap e), e1)"
    using insertRecord_total[OF ok] by blast
  let ?pos = "length (heap e)"
  have io: "ids_ok e" using ok by (simp add: store_ok_def)
  have ok1: "store_ok e1" by (rule store_ok_insertRecord[OF ok run])
  have facts: "length (heap e1) = Suc ?pos" "heap e1 ! ?pos = r"
      "find_node (rec_id r) (root (idIndex e1)) = Some ?pos"
    and upd: "\<And>old. find_node (rec_id r) (root (idIndex e)) = Some old \<Longrightarrow> deleted (heap e1 ! old)"
    using insertRecord_effect[OF run] by simp_all
  have found: "\<exists>c e2. findById (rec_id r) e1 = Inr ((Some ?pos, c), e2)"
    using store_ok_findById[OF ok1, of "rec_id r"] facts(3) by simp
  have later: "\<forall>old. live e old \<and> rec_id (heap e ! old) = rec_id r \<longrightarrow>
              (\<forall>e2. evolves e1 e2 \<longrightarrow>
                 (\<forall>lo hi res c e3. rangeById lo hi e2 = Inr ((res, c), e3) \<longrightarrow> old \<notin> set res) \<and>
                 (\<forall>q res c e3. prefixByLast q e2 = Inr ((res, c), e3) \<longrightarrow> old \<notin> set res))"
  proof (intro allI impI)
    fix old e2
    assume o: "live e old \<and> rec_id (heap e ! old) = rec_id r" and ev: "evolves e1 e2"
    have "find_node (rec_id r) (root (idIndex e)) = Some old"
      using ids_okD(4)[OF io, of old] o by (simp add: live_def)
    then have d1: "deleted (heap e1 ! old)" by (rule upd)
    have l1: "old < length (heap e1)" using o facts(1) by (simp add: live_def)
    have "flags_kept e1 e2" using ev unfolding evolves_def by (rule flags_kept_evolves)
    then have d2: "deleted (heap e2 ! old)" using d1 l1 by (simp add: flags_kept_def)
    show "(\<forall>lo hi res c e3. rangeById lo hi e2 = Inr ((res, c), e3) \<longrightarrow> old \<notin> set res) \<and>
          (\<forall>q res c e3. prefixByLast q e2 = Inr ((res, c), e3) \<longrightarrow> old \<notin> set res)"
      using d2 range_result_unflagged prefix_result_unflagged by blast
  qed
  show ?thesis using run found facts(2) later by blast
qed

text \<open>
  For any argument, a reference into the heap included, the same holds of the record that
  \<open>push_back\<close> copies: that is the record \<open>findById\<close> then points at.
\<close>

lemma insert_then_find_stored:
  assumes ok: "store_ok e" and v: "valid_ref recIn (heap e)"
  shows "\<exists>pos e1. insertRecord recIn e = Inr (pos, e1) \<and>
           (\<exists>c e2. findById (rec_id (deref recIn (heap e))) e1 = Inr ((Some pos, c), e2)) \<and>
           heap e1 ! pos = stored_copy recIn e \<and>
           (\<forall>old. live e old \<and> rec_id (heap e ! old) = rec_id (deref recIn (heap e)) \<longrightarrow>
              (\<forall>e2. evolves e1 e2 \<longrightarrow>
                 (\<forall>lo hi res c e3. rangeById lo hi e2 = Inr ((res, c), e3) \<longrightarrow> old \<notin> set res) \<and>
                 (\<forall>q res c e3. prefixByLast q e2 = Inr ((res, c), e3) \<longrightarrow> old \<notin> set res)))"
proof -
  have k: "rec_id (stored_copy recIn e) = rec_id (deref recIn (heap e))"
    using stored_copy_fields[OF v] by simp
  have r: "insertRecord recIn e = insertRecord (Passed (stored_copy recIn e)) e"
    using insertRecord_ref[of recIn e] v by simp
  show ?thesis
    using insert_then_find_passed[OF ok, of "stored_copy recIn e"] unfolding k r .
qed

lemma single_live_0: "live single 0 \<and> rec_id (heap single ! 0) = 1 \<and> \<not> deleted (heap single ! 0)"
  by (simp add: single_value live_def mk_def)


lemma demo_ok: "store_ok demo"
  by (rule store_inv_ok[OF store_inv_demo])

section \<open>Delete, then query\<close>

text \<open>
  C6. When \<open>deleteById i\<close> returns true in a store that satisfies \<open>store_ok\<close> (whatever
  the re-read through the erased node returned), the id was filed at some position
  \<open>rid\<close>; afterwards \<open>rangeById i i\<close> returns the empty list, \<open>prefixByLast\<close> of the
  deleted record's last name completes without returning \<open>rid\<close>, and in every state reached
  by further operations other than an \<open>insertRecord\<close> of \<open>i\<close>, \<open>deleteById i\<close>
  returns false.
\<close>

theorem delete_removes_from_queries:
  assumes ok: "store_ok e" and del: "deleteById g i e = Inr (True, e1)"
  shows "\<exists>rid. find_node i (root (idIndex e)) = Some rid \<and>
           (\<exists>c e2. rangeById i i e1 = Inr (([], c), e2)) \<and>
           (\<exists>res c e2. prefixByLast (rec_last (heap e ! rid)) e1 = Inr ((res, c), e2) \<and>
              rid \<notin> set res) \<and>
           (\<forall>e2 g'. evolves_avoiding {i} e1 e2 \<longrightarrow>
              (\<exists>e3. deleteById g' i e2 = Inr (False, e3)))"
  using del
proof (cases rule: deleteById_cases)
  case absent
  then show ?thesis by simp
next
  case (present rid)
  have io: "ids_ok e" using ok by (simp add: store_ok_def)
  have ok1: "store_ok e1" by (rule store_ok_deleteById[OF ok del])
  have io1: "ids_ok e1" using ok1 by (simp add: store_ok_def)
  note i1 = ids_okD[OF io1]
  have gone: "find_node i (root (idIndex e1)) = None"
    using present(5) by (simp add: find_erase_node[OF ids_okD(1)[OF io]])
  have flag: "deleted (heap e1 ! rid)" using present(2,5) by simp
  obtain res c e2 where rr: "rangeById i i e1 = Inr ((res, c), e2)"
    using store_ok_rangeById[OF ok1] by blast
  have "res = []"
  proof (rule ccontr)
    assume "res \<noteq> []"
    then obtain x where x: "x \<in> set res" by (cases res) auto
    have "x \<in> snd ` set (range_visits i i (root (idIndex e1)))"
      using rangeById_Inr(1)[OF rr] x by auto
    then obtain k where "(k, x) \<in> set (range_visits i i (root (idIndex e1)))" by force
    then have "(k, x) \<in> set (inorder (root (idIndex e1)))" and "k = i"
      unfolding range_visits_filter[OF i1(1)] by auto
    then have "find_node i (root (idIndex e1)) = Some x" by (simp add: set_inorder[OF i1(1)])
    then show False using gone by simp
  qed
  then have a: "\<exists>c e2. rangeById i i e1 = Inr (([], c), e2)" using rr by blast
  obtain res' c' e2' where pr: "prefixByLast (rec_last (heap e ! rid)) e1 = Inr ((res', c'), e2')"
    using store_ok_prefixByLast[OF ok1] by blast
  have "rid \<notin> set res'" using prefixByLast_Inr(1)[OF pr] flag by auto
  then have b: "\<exists>res c e2. prefixByLast (rec_last (heap e ! rid)) e1 = Inr ((res, c), e2) \<and>
              rid \<notin> set res" using pr by blast
  have c: "\<forall>e2 g'. evolves_avoiding {i} e1 e2 \<longrightarrow> (\<exists>e3. deleteById g' i e2 = Inr (False, e3))"
  proof (intro allI impI)
    fix e2 g' assume ev: "evolves_avoiding {i} e1 e2"
    have "find_node i (root (idIndex e2)) = None" using absent_kept[OF ev _ ok1 gone] by simp
    then show "\<exists>e3. deleteById g' i e2 = Inr (False, e3)" using deleteById_absent by blast
  qed
  show ?thesis using present(1) a b c by blast
qed

lemma demo_delete_5:
  "deleteById 1 5 demo =
     Inr (True, demo\<lparr>heap := [mk 10 ''Lee'', (mk 5 ''Kim'')\<lparr>deleted := True\<rparr>, mk 20 ''Kim'', mk 1 ''Park''],
       idIndex := \<lparr>root = Node (Node Null 1 3 Null) 10 0 (Node Null 20 2 Null), comparisons = 6\<rparr>,
       lastIndex := \<lparr>root = Node (Node Null ''kim'' [2] Null) ''lee'' [0] (Node Null ''park'' [3] Null),
                     comparisons = 6\<rparr>\<rparr>)"
  by code_simp

lemma demo_delete_5_prefix:
  "map_sum id (fst \<circ> fst) (prefixByLast ''ki''
     (demo\<lparr>heap := [mk 10 ''Lee'', (mk 5 ''Kim'')\<lparr>deleted := True\<rparr>, mk 20 ''Kim'', mk 1 ''Park''],
       idIndex := \<lparr>root = Node (Node Null 1 3 Null) 10 0 (Node Null 20 2 Null), comparisons = 6\<rparr>,
       lastIndex := \<lparr>root = Node (Node Null ''kim'' [2] Null) ''lee'' [0] (Node Null ''park'' [3] Null),
                     comparisons = 6\<rparr>\<rparr>)) = Inr [2]"
  by code_simp

lemma demo_find_5: "find_node 5 (root (idIndex demo)) = Some 1"
  by code_simp

lemma demo_find_10: "find_node 10 (root (idIndex demo)) = Some 0"
  by code_simp

lemma demo_stale_10: "stale_value 10 (root (idIndex demo)) = Some 2"
  by code_simp

theorem delete_removes_from_queries_witness:
  "store_ok demo \<and>
   (\<exists>e1. deleteById 1 5 demo = Inr (True, e1) \<and>
      find_node 5 (root (idIndex demo)) = Some 1 \<and>
      evolves_avoiding {5} e1 e1 \<and>
      (\<exists>c e2. rangeById 5 5 e1 = Inr (([], c), e2)) \<and>
      (\<exists>res c e2. prefixByLast (rec_last (heap demo ! 1)) e1 = Inr ((res, c), e2) \<and> 1 \<notin> set res) \<and>
      map_sum id (fst \<circ> fst) (prefixByLast ''ki'' e1) = Inr [2] \<and>
      (\<exists>e3. deleteById 1 5 e1 = Inr (False, e3))) \<and>
   stale_value 10 (root (idIndex demo)) = Some 2 \<and>
   (\<exists>e1. deleteById 2 10 demo = Inr (True, e1) \<and>
      find_node 10 (root (idIndex demo)) = Some 0 \<and>
      evolves_avoiding {10} e1 e1 \<and>
      (\<exists>c e2. rangeById 10 10 e1 = Inr (([], c), e2)) \<and>
      (\<exists>res c e2. prefixByLast (rec_last (heap demo ! 0)) e1 = Inr ((res, c), e2) \<and> 0 \<notin> set res) \<and>
      (\<exists>e3. deleteById 2 10 e1 = Inr (False, e3)))"
proof -
  obtain e1 where d: "deleteById 1 5 demo = Inr (True, e1)"
    and p: "map_sum id (fst \<circ> fst) (prefixByLast ''ki'' e1) = Inr [2]"
    using demo_delete_5 demo_delete_5_prefix by blast
  have ev: "evolves_avoiding {5} e1 e1" by (rule ev_refl)
  obtain rid where f: "find_node 5 (root (idIndex demo)) = Some rid"
    and a: "\<exists>c e2. rangeById 5 5 e1 = Inr (([], c), e2)"
    and b: "\<exists>res c e2. prefixByLast (rec_last (heap demo ! rid)) e1 = Inr ((res, c), e2) \<and> rid \<notin> set res"
    and c: "\<forall>e2 g'. evolves_avoiding {5} e1 e2 \<longrightarrow> (\<exists>e3. deleteById g' 5 e2 = Inr (False, e3))"
    using delete_removes_from_queries[OF demo_ok d] by blast
  have r: "rid = 1" using f demo_find_5 by simp
  have c': "\<exists>e3. deleteById 1 5 e1 = Inr (False, e3)" using c ev by blast
  have w1: "\<exists>e1. deleteById 1 5 demo = Inr (True, e1) \<and>
      find_node 5 (root (idIndex demo)) = Some 1 \<and>
      evolves_avoiding {5} e1 e1 \<and>
      (\<exists>c e2. rangeById 5 5 e1 = Inr (([], c), e2)) \<and>
      (\<exists>res c e2. prefixByLast (rec_last (heap demo ! 1)) e1 = Inr ((res, c), e2) \<and> 1 \<notin> set res) \<and>
      map_sum id (fst \<circ> fst) (prefixByLast ''ki'' e1) = Inr [2] \<and>
      (\<exists>e3. deleteById 1 5 e1 = Inr (False, e3))"
    using d demo_find_5 ev a b[unfolded r] p c' by blast
  have l: "0 < length (heap demo)" "2 < length (heap demo)" by (simp_all add: demo_heap)
  obtain s1 where d2: "deleteById 2 10 demo = Inr (True, s1)"
    using deleteById_present[OF demo_find_10 l] by blast
  have ev2: "evolves_avoiding {10} s1 s1" by (rule ev_refl)
  obtain rid2 where f2: "find_node 10 (root (idIndex demo)) = Some rid2"
    and a2: "\<exists>c e2. rangeById 10 10 s1 = Inr (([], c), e2)"
    and b2: "\<exists>res c e2. prefixByLast (rec_last (heap demo ! rid2)) s1 = Inr ((res, c), e2) \<and> rid2 \<notin> set res"
    and c2: "\<forall>e2 g'. evolves_avoiding {10} s1 e2 \<longrightarrow> (\<exists>e3. deleteById g' 10 e2 = Inr (False, e3))"
    using delete_removes_from_queries[OF demo_ok d2] by blast
  have r2: "rid2 = 0" using f2 demo_find_10 by simp
  have c2': "\<exists>e3. deleteById 2 10 s1 = Inr (False, e3)" using c2 ev2 by blast
  have w2: "\<exists>e1. deleteById 2 10 demo = Inr (True, e1) \<and>
      find_node 10 (root (idIndex demo)) = Some 0 \<and>
      evolves_avoiding {10} e1 e1 \<and>
      (\<exists>c e2. rangeById 10 10 e1 = Inr (([], c), e2)) \<and>
      (\<exists>res c e2. prefixByLast (rec_last (heap demo ! 0)) e1 = Inr ((res, c), e2) \<and> 0 \<notin> set res) \<and>
      (\<exists>e3. deleteById 2 10 e1 = Inr (False, e3))"
    using d2 demo_find_10 ev2 a2 b2[unfolded r2] c2' by blast
  show ?thesis using demo_ok w1 demo_stale_10 w2 by blast
qed

section \<open>The position deleteById removes from the secondary index\<close>

lemma stale_value_successor:
  "bst t \<Longrightarrow> stale_value k t = Some g \<Longrightarrow> \<exists>k'. k < k' \<and> find_node k' t = Some g"
proof (induction t)
  case Null
  then show ?case by simp
next
  case (Node l a b r)
  have bl: "bst l" and br: "bst r" and la: "\<forall>x \<in> keys l. x < a" and ra: "\<forall>x \<in> keys r. a < x"
    using Node.prems(1) by simp_all
  show ?case
  proof (cases "k < a")
    case True
    have "stale_value k l = Some g" using Node.prems(2) True by simp
    from Node.IH(1)[OF bl this] obtain k' where k': "k < k'" "find_node k' l = Some g" by blast
    have "k' \<in> keys l" using find_node_keys[OF k'(2)] .
    then have "k' < a" using la by simp
    then have "find_node k' (Node l a b r) = Some g" using k'(2) by simp
    then show ?thesis using k'(1) by blast
  next
    case False
    note nlt = this
    show ?thesis
    proof (cases "a < k")
      case True
      have "stale_value k r = Some g" using Node.prems(2) nlt True by simp
      from Node.IH(2)[OF br this] obtain k' where k': "k < k'" "find_node k' r = Some g" by blast
      have "a < k'" using True k'(1) by simp
      then have "\<not> k' < a" by simp
      then have "find_node k' (Node l a b r) = Some g" using \<open>a < k'\<close> k'(2) by simp
      then show ?thesis using k'(1) by blast
    next
      case False
      then have ka: "k = a" using nlt by simp
      have sv: "(case l of Null \<Rightarrow> None
            | Node ll lk lv lr \<Rightarrow>
                (case r of Null \<Rightarrow> None
                 | Node rl rk rv rr \<Rightarrow> Some (snd (min_node rl rk rv)))) = Some g"
        using Node.prems(2) nlt False by simp
      obtain rl rk rv rr where r: "r = Node rl rk rv rr" and g: "g = snd (min_node rl rk rv)"
      proof (cases l)
        case Null
        then show ?thesis using sv by simp
      next
        case L: (Node ll lk lv lr)
        show ?thesis
        proof (cases r)
          case Null
          then show ?thesis using sv L by simp
        next
          case (Node rl rk rv rr)
          then show ?thesis using sv L that by simp
        qed
      qed
      have brl: "bst rl" and lt: "\<forall>x \<in> keys rl. x < rk" using br r by simp_all
      let ?s = "fst (min_node rl rk rv)"
      have "?s \<in> insert rk (keys rl)" by (rule min_node_in)
      then have "?s \<in> keys r" using r by auto
      then have as: "a < ?s" using ra by simp
      then have nas: "\<not> ?s < a" by simp
      have "find_node ?s r = Some g" using min_node_find[OF brl lt, of rv rr] r g by simp
      then have "find_node ?s (Node l a b r) = Some g" using as nas by simp
      then show ?thesis using as ka by blast
    qed
  qed
qed

lemma stale_value_keys: "stale_value k t = Some g \<Longrightarrow> k \<in> keys t"
  by (induction t) (auto split: if_splits)

text \<open>
  Whenever the re-read of \<open>deleteById\<close> returns anything but the position read before
  the erase, the deleted position stays in the bucket of its name: the invariant of the
  secondary index is lost.
\<close>

lemma stale_reread_breaks_buckets:
  assumes inv: "store_inv e" and f: "find_node i (root (idIndex e)) = Some rid"
    and g: "g \<noteq> rid" and del: "deleteById g i e = Inr (found, e')"
  shows "rid \<in> set (bucket_of (name_at e' rid) (root (lastIndex e'))) \<and> deleted (heap e' ! rid) \<and>
         \<not> buckets_exact e'"
  using del
proof (cases rule: deleteById_cases)
  case absent
  then show ?thesis using f by simp
next
  case (present rid')
  have rr: "rid' = rid" using present(1) f by simp
  have ok: "store_ok e" and il: "ids_live e" and be: "buckets_exact e"
    using inv by (simp_all add: store_inv_def)
  have io: "ids_ok e" and bo: "buckets_ok e" using ok by (simp_all add: store_ok_def)
  have r: "rid < length (heap e)" using present(2) rr by simp
  have lv: "\<not> deleted (heap e ! rid)"
    using il f unfolding ids_live_iff[OF ids_okD(1)[OF io]] by blast
  have "rid \<in> set (bucket_of (toLower (rec_last (heap e ! rid))) (root (lastIndex e)))"
    using be r lv unfolding buckets_exact_iff[OF buckets_okD(1)[OF bo]] by blast
  then have m: "rid \<in> set (bucket_of (name_at e' rid) (root (lastIndex e')))"
    using g r present(3) by (auto simp: present(5) rr name_at_def bucket_of_remove)
  have d: "deleted (heap e' ! rid)" using r by (simp add: present(5) rr)
  have ok': "store_ok e'" by (rule store_ok_deleteById[OF ok del])
  then have b': "bst (root (lastIndex e'))" using buckets_okD(1) by (auto simp: store_ok_def)
  obtain bucket where fb: "find_node (name_at e' rid) (root (lastIndex e')) = Some bucket"
    and mb: "rid \<in> set bucket"
    using m by (cases "find_node (name_at e' rid) (root (lastIndex e'))") (auto simp: bucket_of_def)
  have "\<not> buckets_exact e'"
    unfolding buckets_exact_iff[OF b'] using fb mb d by blast
  then show ?thesis using m d by simp
qed

text \<open>
  So every \<open>deleteById\<close> of an id whose node has two children, re-reading the successor's
  position that \<open>erase\<close> left in the node, loses the invariant.
\<close>

lemma two_child_delete_breaks_buckets:
  assumes inv: "store_inv e" and s: "stale_value i (root (idIndex e)) = Some g"
    and del: "deleteById g i e = Inr (found, e')"
  shows "found \<and> \<not> store_inv e'"
proof -
  have io: "ids_ok e" using inv by (simp add: store_inv_def store_ok_def)
  note ix = ids_okD[OF io]
  obtain k' where k': "i < k'" "find_node k' (root (idIndex e)) = Some g"
    using stale_value_successor[OF ix(1) s] by blast
  have "i \<in> keys (root (idIndex e))" using stale_value_keys[OF s] .
  then have "find_node i (root (idIndex e)) \<noteq> None" using keys_find_iff[OF ix(1)] by simp
  then obtain rid where f: "find_node i (root (idIndex e)) = Some rid" by auto
  have "rec_id (heap e ! g) = k'" "rec_id (heap e ! rid) = i" using ix(3) k'(2) f by auto
  then have ne: "g \<noteq> rid" using k'(1) by auto
  have "\<not> buckets_exact e'" using stale_reread_breaks_buckets[OF inv f ne del] by simp
  then have "\<not> store_inv e'" by (simp add: store_inv_def)
  moreover have found using del
  proof (cases rule: deleteById_cases)
    case absent
    then show ?thesis using f by simp
  next
    case (present rid')
    then show ?thesis by simp
  qed
  ultimately show ?thesis by simp
qed

text \<open>
  C2 fails on the code. In the store of the specification's scenario id 10 sits in the root
  of the primary index with two children. \<open>deleteById 10\<close>, re-reading through
  \<open>heapIndex\<close> the position 2 of the in-order successor (id 20) that \<open>erase\<close> moved
  into that node, returns true and leaves position 0, now flagged deleted, in bucket
  \<open>lee\<close>, and position 2, whose flag is clear and which the primary index still files
  under id 20, in no bucket.
\<close>

theorem deleteById_stale_position:
  "stale_value 10 (root (idIndex demo)) = Some 2 \<and>
   map_sum id (\<lambda>(found, e'). (found, map deleted (heap e'), inorder (root (idIndex e')),
       inorder (root (lastIndex e')))) (deleteById 2 10 demo)
     = Inr (True, [True, False, False, False], [(1, 3), (5, 1), (20, 2)],
            [(''kim'', [1]), (''lee'', [0]), (''park'', [3])])"
  by code_simp

text \<open>
  The position found before the erase is never the one the node holds after it: the
  successor's position belongs to a greater id.
\<close>

lemma stale_value_not_own:
  assumes io: "ids_ok e" and f: "find_node i (root (idIndex e)) = Some rid"
  shows "stale_value i (root (idIndex e)) \<noteq> Some rid"
proof
  assume s: "stale_value i (root (idIndex e)) = Some rid"
  note ix = ids_okD[OF io]
  obtain k' where k': "i < k'" "find_node k' (root (idIndex e)) = Some rid"
    using stale_value_successor[OF ix(1) s] by blast
  have "rec_id (heap e ! rid) = k'" "rec_id (heap e ! rid) = i" using ix(3) k'(2) f by auto
  then show False using k'(1) by simp
qed

text \<open>The store that run leaves behind is reached from the empty store by public calls.\<close>

lemma evolves_after_inserts_aux:
  "store_ok e \<Longrightarrow> evolves e0 e \<Longrightarrow>
   evolves e0 (fold (\<lambda>r e. case insertRecord (Passed r) e of Inr (pos, e') \<Rightarrow> e' | Inl err \<Rightarrow> e) rs e)"
proof (induction rs arbitrary: e)
  case Nil
  then show ?case by simp
next
  case (Cons r rs)
  obtain e' where r: "insertRecord (Passed r) e = Inr (length (heap e), e')"
    using insertRecord_total[OF Cons.prems(1)] by blast
  have ok: "store_ok e'" by (rule store_ok_insertRecord[OF Cons.prems(1) r])
  have a: "evolves_avoiding {} e0 e" using Cons.prems(2) by (simp add: evolves_def)
  have "evolves_avoiding {} e0 e'" by (rule ev_insert[OF a _ r]) simp
  then have "evolves e0 e'" by (simp add: evolves_def)
  then show ?case using Cons.IH[OF ok] r by simp
qed

lemma evolves_after_inserts: "evolves empty_engine (after_inserts rs)"
  unfolding after_inserts_def
  by (rule evolves_after_inserts_aux[OF store_inv_ok[OF store_inv_empty]])
     (simp add: evolves_def ev_refl)

lemma stale_delete_reachable:
  "\<exists>e'. deleteById 2 10 demo = Inr (True, e') \<and> evolves empty_engine e'"
proof -
  have l: "0 < length (heap demo)" "2 < length (heap demo)" by (simp_all add: demo_heap)
  obtain e' where d: "deleteById 2 10 demo = Inr (True, e')"
    using deleteById_present[OF demo_find_10 l] by blast
  have "evolves empty_engine demo" unfolding demo_def by (rule evolves_after_inserts)
  then have "evolves_avoiding {} empty_engine e'"
    unfolding evolves_def using d by (rule ev_delete)
  then show ?thesis using d by (auto simp: evolves_def)
qed

section \<open>The effect of deleteById\<close>

text \<open>
  When the primary index has no entry for the id, \<open>deleteById\<close> returns false and leaves
  the heap, the entries of the primary index and the whole secondary index as they were;
  the comparison counter of the primary index has advanced by the comparisons of the lookup.
\<close>

lemma deleteById_absent_effect:
  assumes "find_node i (root (idIndex e)) = None"
  shows "deleteById g i e =
        Inr (False, e\<lparr>idIndex := (idIndex e)\<lparr>comparisons :=
                          comparisons (idIndex e) + find_cmps i (root (idIndex e))\<rparr>\<rparr>)"
  using assms by (simp add: deleteById_absent find_bst_def)

text \<open>
  When the id is filed at \<open>rid\<close> and the position \<open>g\<close> re-read through
  \<open>heapIndex\<close> lies in the heap, \<open>deleteById\<close> returns true, the heap differs only in
  the deleted flag of \<open>rid\<close>, now set, and the primary index has lost the entry of the id
  and kept every other one. The position taken out of the secondary index is \<open>g\<close>, from
  the bucket of the name of the record at \<open>g\<close>.
\<close>

lemma deleteById_present_effect:
  assumes ok: "store_ok e" and f: "find_node i (root (idIndex e)) = Some rid"
    and g: "g < length (heap e)"
  shows "\<exists>e'. deleteById g i e = Inr (True, e') \<and>
         heap e' = (heap e)[rid := (heap e ! rid)\<lparr>deleted := True\<rparr>] \<and>
         deleted (heap e' ! rid) \<and>
         (\<forall>k. find_node k (root (idIndex e')) =
                (if k = i then None else find_node k (root (idIndex e)))) \<and>
         (\<forall>k. bucket_of k (root (lastIndex e')) =
                (if k = name_at e g then removeAll g (bucket_of k (root (lastIndex e)))
                 else bucket_of k (root (lastIndex e))))"
proof -
  have io: "ids_ok e" using ok by (simp add: store_ok_def)
  note i = ids_okD[OF io]
  have r: "rid < length (heap e)" using i(2)[OF f] .
  let ?e' = "e\<lparr>heap := (heap e)[rid := (heap e ! rid)\<lparr>deleted := True\<rparr>],
            idIndex := erase_bst i (snd (find_bst i (idIndex e))),
            lastIndex :=
              bucket_remove
                (toLower (rec_last ((heap e)[rid := (heap e ! rid)\<lparr>deleted := True\<rparr>] ! g)))
                g (lastIndex e)\<rparr>"
  have run: "deleteById g i e = Inr (True, ?e')" by (rule deleteById_present[OF f r g])
  have h: "heap ?e' = (heap e)[rid := (heap e ! rid)\<lparr>deleted := True\<rparr>]" by simp
  have d: "deleted (heap ?e' ! rid)" using r by simp
  have ix: "\<forall>k. find_node k (root (idIndex ?e')) =
                (if k = i then None else find_node k (root (idIndex e)))"
    by (simp add: find_erase_node[OF i(1)])
  have bk: "\<forall>k. bucket_of k (root (lastIndex ?e')) =
                (if k = name_at e g then removeAll g (bucket_of k (root (lastIndex e)))
                 else bucket_of k (root (lastIndex e)))"
    using g by (simp add: bucket_of_remove name_at_def)
  show ?thesis using run h d ix bk by blast
qed

text \<open>
  C7 fails on the code, by the defect shown for C2. In the store of the specification's
  scenario the unflagged record of id 10 sits at position 0, in bucket \<open>lee\<close>.
  \<open>deleteById 10\<close>, re-reading through \<open>heapIndex\<close> the position 2 that \<open>erase\<close>
  left in the node, returns true, sets the flag of position 0 and removes the primary entry
  of id 10, but does not remove position 0 from its bucket: bucket \<open>lee\<close> still holds
  it, and bucket \<open>kim\<close> has lost position 2 instead.
\<close>

theorem deleteById_leaves_position_in_bucket:
  "find_node 10 (root (idIndex demo)) = Some 0 \<and> live demo 0 \<and> name_at demo 0 = ''lee'' \<and>
   bucket_of ''lee'' (root (lastIndex demo)) = [0] \<and>
   bucket_of ''kim'' (root (lastIndex demo)) = [1, 2] \<and>
   stale_value 10 (root (idIndex demo)) = Some 2 \<and>
   map_sum id (\<lambda>(found, e'). (found, deleted (heap e' ! 0), find_node 10 (root (idIndex e')),
       bucket_of ''lee'' (root (lastIndex e')), bucket_of ''kim'' (root (lastIndex e'))))
     (deleteById 2 10 demo)
     = Inr (True, True, None, [0], [1])"
  by code_simp

section \<open>Prefix queries by last name\<close>

lemma tolower_alphabetic: "alphabetic c \<Longrightarrow> tolower c < CHR ''{''"
proof -
  assume a: "alphabetic c"
  have "of_char (tolower c) < (123::nat)"
  proof (cases "CHR ''A'' \<le> c \<and> c \<le> CHR ''Z''")
    case True
    then have "(of_char c :: nat) \<le> 90" by (simp add: less_eq_char_def)
    then have m: "((of_char c :: nat) + 32) mod 256 < 123" by simp
    have "tolower c = char_of (of_char c + (32::nat))"
      unfolding tolower_def by (rule if_P[OF True])
    then show ?thesis using m by simp
  next
    case False
    then have "c \<le> CHR ''z''" using a by (auto simp: alphabetic_def)
    then have m: "(of_char c :: nat) \<le> 122" by (simp add: less_eq_char_def)
    have "tolower c = c" unfolding tolower_def by (rule if_not_P[OF False])
    then show ?thesis using m by simp
  qed
  then show ?thesis by (simp add: less_char_def)
qed

lemma toLower_alphabetic:
  "\<forall>c \<in> set s. alphabetic c \<Longrightarrow> \<forall>c \<in> set (toLower s). c < CHR ''{''"
  by (auto simp: toLower_def tolower_alphabetic)

lemma prefixByLast_range:
  assumes inv: "store_inv e"
  shows "\<exists>res c e'. prefixByLast q e = Inr ((res, c), e') \<and>
           set res = {rid. live e rid \<and> toLower q \<le> name_at e rid \<and>
                         name_at e rid \<le> toLower q @ ''{''}"
proof -
  let ?lo = "toLower q"
  let ?hi = "toLower q @ ''{''"
  let ?t = "root (lastIndex e)"
  let ?vs = "range_visits ?lo ?hi ?t"
  let ?res = "filter (\<lambda>rid. \<not> deleted (heap e ! rid)) (concat (map snd ?vs))"
  have ok: "store_ok e" and be: "buckets_exact e" using inv by (simp_all add: store_inv_def)
  have bo: "buckets_ok e" using ok by (simp add: store_ok_def)
  note b = buckets_okD[OF bo]
  have x2: "\<And>x. x < length (heap e) \<Longrightarrow> \<not> deleted (heap e ! x) \<Longrightarrow>
              x \<in> set (bucket_of (toLower (rec_last (heap e ! x))) ?t)"
    using be unfolding buckets_exact_iff[OF b(1)] by blast
  have vs: "?vs = filter (\<lambda>(k, v). ?lo \<le> k \<and> k \<le> ?hi) (inorder ?t)"
    by (rule range_visits_filter[OF b(1)])
  have mem: "\<And>k bucket. ((k, bucket) \<in> set ?vs) = (find_node k ?t = Some bucket \<and> ?lo \<le> k \<and> k \<le> ?hi)"
    by (auto simp: vs set_inorder[OF b(1)])
  have run: "prefixByLast q e = Inr ((?res, range_cmps ?lo ?hi ?t),
      e\<lparr>lastIndex := (lastIndex e)\<lparr>comparisons := range_cmps ?lo ?hi ?t\<rparr>\<rparr>)"
    by (rule store_ok_prefixByLast[OF ok])
  have "set ?res = {rid. live e rid \<and> ?lo \<le> name_at e rid \<and> name_at e rid \<le> ?hi}"
  proof (intro set_eqI iffI)
    fix rid assume "rid \<in> set ?res"
    then obtain k bucket where v: "(k, bucket) \<in> set ?vs" and m: "rid \<in> set bucket"
      and nd: "\<not> deleted (heap e ! rid)" by auto
    have f: "find_node k ?t = Some bucket" and r: "?lo \<le> k" "k \<le> ?hi" using v by (simp_all add: mem)
    show "rid \<in> {rid. live e rid \<and> ?lo \<le> name_at e rid \<and> name_at e rid \<le> ?hi}"
      using b(3)[OF f m] b(4)[OF f m] nd r by (simp add: live_def name_at_def)
  next
    fix rid assume "rid \<in> {rid. live e rid \<and> ?lo \<le> name_at e rid \<and> name_at e rid \<le> ?hi}"
    then have l: "rid < length (heap e)" and nd: "\<not> deleted (heap e ! rid)"
      and r: "?lo \<le> name_at e rid" "name_at e rid \<le> ?hi"
      by (simp_all add: live_def)
    obtain bucket where f: "find_node (name_at e rid) ?t = Some bucket" and m: "rid \<in> set bucket"
      using x2[OF l nd]
      by (cases "find_node (name_at e rid) ?t") (auto simp: bucket_of_def name_at_def)
    have "(name_at e rid, bucket) \<in> set ?vs" using f r by (simp add: mem)
    then have "rid \<in> set (concat (map snd ?vs))" using m by force
    then show "rid \<in> set ?res" using nd by simp
  qed
  then show ?thesis using run by blast
qed

text \<open>
  In every store that satisfies the invariants of the data model, \<open>prefixByLast q\<close>
  completes and returns exactly the positions of the records with a clear flag whose
  lower-cased last name lies in the inclusive key range from the lower-cased prefix to the
  lower-cased prefix followed by \<open>{\<close>. Each of these names begins with the lower-cased
  prefix; and every unflagged record whose lower-cased name begins with the lower-cased
  prefix and consists of characters that sort below \<open>{\<close> is returned.
\<close>

lemma prefixByLast_exact:
  assumes inv: "store_inv e"
  shows "\<exists>res c e'. prefixByLast q e = Inr ((res, c), e') \<and>
           set res = {rid. live e rid \<and> toLower q \<le> name_at e rid \<and>
                         name_at e rid \<le> toLower q @ ''{''} \<and>
           set res \<subseteq> {rid. live e rid \<and> prefix (toLower q) (name_at e rid)} \<and>
           {rid. live e rid \<and> prefix (toLower q) (name_at e rid) \<and>
                 (\<forall>c \<in> set (name_at e rid). c < CHR ''{'')} \<subseteq> set res"
proof -
  obtain res c e' where run: "prefixByLast q e = Inr ((res, c), e')"
    and s: "set res = {rid. live e rid \<and> toLower q \<le> name_at e rid \<and>
                         name_at e rid \<le> toLower q @ ''{''}"
    using prefixByLast_range[OF inv] by blast
  have up: "set res \<subseteq> {rid. live e rid \<and> prefix (toLower q) (name_at e rid)}"
    unfolding s using range_has_prefix by blast
  have down: "{rid. live e rid \<and> prefix (toLower q) (name_at e rid) \<and>
                 (\<forall>c \<in> set (name_at e rid). c < CHR ''{'')} \<subseteq> set res"
    unfolding s using prefix_in_range by blast
  show ?thesis using run s up down by blast
qed

text \<open>
  So in such a store, when the names of the unflagged records consist of characters below
  \<open>{\<close>, the result is exactly the unflagged records whose lower-cased last name begins
  with the lower-cased prefix.
\<close>

lemma prefixByLast_prefix_exact:
  assumes inv: "store_inv e"
    and below: "\<forall>rid. live e rid \<longrightarrow> (\<forall>c \<in> set (name_at e rid). c < CHR ''{'')"
  shows "\<exists>res c e'. prefixByLast q e = Inr ((res, c), e') \<and>
           set res = {rid. live e rid \<and> prefix (toLower q) (name_at e rid)}"
proof -
  obtain res c e' where run: "prefixByLast q e = Inr ((res, c), e')"
    and up: "set res \<subseteq> {rid. live e rid \<and> prefix (toLower q) (name_at e rid)}"
    and down: "{rid. live e rid \<and> prefix (toLower q) (name_at e rid) \<and>
                 (\<forall>c \<in> set (name_at e rid). c < CHR ''{'')} \<subseteq> set res"
    using prefixByLast_exact[OF inv, of q] by blast
  have "{rid. live e rid \<and> prefix (toLower q) (name_at e rid)} \<subseteq> set res"
    using down below by blast
  then have "set res = {rid. live e rid \<and> prefix (toLower q) (name_at e rid)}"
    using up by blast
  then show ?thesis using run by blast
qed

text \<open>The example of the specification: last names Smith and SMITHSON.\<close>

lemma smiths_heap: "heap smiths = [mk 1 ''Smith'', mk 2 ''SMITHSON'']"
  by code_simp

lemma smiths_smi: "map_sum id (fst \<circ> fst) (prefixByLast ''smi'' smiths) = Inr [0, 1]"
  by code_simp

lemma smiths_smith: "map_sum id (fst \<circ> fst) (prefixByLast ''smith'' smiths) = Inr [0, 1]"
  by code_simp

lemma smiths_smithz: "map_sum id (fst \<circ> fst) (prefixByLast ''smithz'' smiths) = Inr []"
  by code_simp

text \<open>
  A name that continues after the prefix with a byte at or above \<open>{\<close> lies beyond the
  upper bound: the store holds one record, unflagged, whose lower-cased last name
  \<open>mu\<close>, \<open>0xC3 0xB1\<close>, \<open>oz\<close> begins with \<open>mu\<close>, and \<open>prefixByLast\<close> of
  \<open>mu\<close> returns nothing.
\<close>

lemma prefixByLast_beyond_sentinel:
  "live munoz 0 \<and> prefix (toLower ''mu'') (name_at munoz 0) \<and>
   map_sum id (fst \<circ> fst) (prefixByLast ''mu'' munoz) = Inr []"
  by code_simp

text \<open>
  C4 fails on the code, by the defect shown for C2. In the store of the specification's
  scenario \<open>deleteById 10\<close>, re-reading position 2 after the erase, returns true and
  takes position 2 out of bucket \<open>kim\<close>. The record at position 2 is unflagged, its
  lower-cased last name \<open>kim\<close> consists of letters and begins with \<open>ki\<close>, and
  \<open>prefixByLast\<close> of \<open>ki\<close> returns position 1 alone.
\<close>

theorem prefixByLast_omits_live_match:
  "map_sum id (\<lambda>(found, e'). (found, live e' 2, name_at e' 2,
       prefix (toLower ''ki'') (name_at e' 2),
       list_all (\<lambda>c. c < CHR ''{'') (name_at e' 2),
       map_sum id (fst \<circ> fst) (prefixByLast ''ki'' e'))) (deleteById 2 10 demo)
     = Inr (True, True, ''kim'', True, True, Inr [1])"
  by code_simp

section \<open>The empty prefix\<close>

text \<open>
  In every store that satisfies the invariants of the data model, \<open>prefixByLast\<close> of the
  empty string completes and returns the unflagged records whose lower-cased last name is
  at most \<open>{\<close>: every unflagged record whose lower-cased name is less than \<open>{\<close> is
  among them, and when the last names of all unflagged records consist of letters only,
  all unflagged records are returned.
\<close>

lemma prefixByLast_empty:
  assumes inv: "store_inv e"
  shows "\<exists>res c e'. prefixByLast [] e = Inr ((res, c), e') \<and>
           set res = {rid. live e rid \<and> name_at e rid \<le> ''{''} \<and>
           {rid. live e rid \<and> name_at e rid < ''{''} \<subseteq> set res \<and>
           ((\<forall>rid. live e rid \<longrightarrow> (\<forall>c \<in> set (rec_last (heap e ! rid)). alphabetic c)) \<longrightarrow>
              set res = {rid. live e rid})"
proof -
  obtain res c e' where run: "prefixByLast [] e = Inr ((res, c), e')"
    and s: "set res = {rid. live e rid \<and> toLower [] \<le> name_at e rid \<and>
                         name_at e rid \<le> toLower [] @ ''{''}"
    using prefixByLast_range[OF inv] by blast
  have s': "set res = {rid. live e rid \<and> name_at e rid \<le> ''{''}"
    using s by (simp add: toLower_def)
  have lt: "{rid. live e rid \<and> name_at e rid < ''{''} \<subseteq> set res"
    unfolding s' by auto
  have al: "(\<forall>rid. live e rid \<longrightarrow> (\<forall>c \<in> set (rec_last (heap e ! rid)). alphabetic c)) \<longrightarrow>
              set res = {rid. live e rid}"
  proof
    assume a: "\<forall>rid. live e rid \<longrightarrow> (\<forall>c \<in> set (rec_last (heap e ! rid)). alphabetic c)"
    have "\<And>rid. live e rid \<Longrightarrow> name_at e rid \<le> ''{''"
    proof -
      fix rid assume "live e rid"
      then have "\<forall>c \<in> set (rec_last (heap e ! rid)). alphabetic c" using a by blast
      then have "\<forall>c \<in> set (name_at e rid). c < CHR ''{''"
        unfolding name_at_def by (rule toLower_alphabetic)
      then show "name_at e rid \<le> ''{''" by (rule below_brace)
    qed
    then show "set res = {rid. live e rid}" unfolding s' by blast
  qed
  show ?thesis using run s' lt al by blast
qed

lemma demo_all: "map_sum id (fst \<circ> fst) (prefixByLast [] demo) = Inr [1, 2, 0, 3]"
  by code_simp

lemma demo_alphabetic:
  "\<forall>rid. live demo rid \<longrightarrow> (\<forall>c \<in> set (rec_last (heap demo ! rid)). alphabetic c)"
proof (intro allI impI)
  fix rid assume "live demo rid"
  then have "rid < 4" by (simp add: live_def demo_heap)
  then consider "rid = 0" | "rid = 1" | "rid = 2" | "rid = 3" by linarith
  then show "\<forall>c \<in> set (rec_last (heap demo ! rid)). alphabetic c"
    by cases (simp_all add: demo_heap mk_def alphabetic_def)
qed

text \<open>
  C10 fails on the code, by the defect shown for C2. In the store of the specification's
  scenario every last name consists of letters. After \<open>deleteById 10\<close>, re-reading
  position 2 after the erase, has returned true, the records at positions 1, 2 and 3 are
  unflagged and their lower-cased names sort below \<open>{\<close>, and \<open>prefixByLast\<close> of the
  empty string returns positions 1 and 3 and omits position 2.
\<close>

theorem prefixByLast_empty_omits_live_record:
  "map_sum id (\<lambda>(found, e'). (found, map (live e') [0, 1, 2, 3],
       map (name_at e') [1, 2, 3],
       list_all (\<lambda>rid. name_at e' rid < ''{'') [1, 2, 3],
       list_all (\<lambda>r. list_all alphabetic (rec_last r)) (heap e'),
       map_sum id (fst \<circ> fst) (prefixByLast [] e'))) (deleteById 2 10 demo)
     = Inr (True, [False, True, True, True], [''kim'', ''kim'', ''park''], True, True,
            Inr [1, 3])"
  by code_simp

end
